theory Spec2Isabelle
  imports Main "HOL-Library.Signed_Division"
begin

section \<open>The URL shortener of \<^verbatim>\<open>src/shortener.js\<close>\<close>

text \<open>
  The function \<^verbatim>\<open>shortener(alphabet, protocol, ids)\<close> closes over four variables: its
  three parameters and the object \<^verbatim>\<open>urlmap\<close>. The closure is a record, and every
  function of the closure takes it (or the variables it reads) as an argument and returns
  the updated record where it writes one.

  Numbers. A JavaScript number is a double. The identifiers are integers, and an \<^typ>\<open>int\<close>
  stands for the double of that value. The remainder \<^verbatim>\<open>%\<close> is exact on doubles and keeps
  the sign of the dividend, which is \<open>smod\<close>. The sum \<^verbatim>\<open>ids + 1\<close> and the quotient
  \<^verbatim>\<open>id / n\<close> are rounded to the nearest double, ties to the even significand, as
  \<open>round_double\<close> and \<open>floor_double\<close> below compute: they are exact up to \<open>2 ^ 53\<close>
  and not beyond. An integer that no double has as its value stands for no number of the
  program. The model has no bound on the exponent (no \<^verbatim>\<open>Infinity\<close>), it does not
  distinguish \<^verbatim>\<open>-0\<close> from \<^verbatim>\<open>0\<close> (both print as \<^verbatim>\<open>"0"\<close>), and it does not cover the
  empty alphabet, where the source divides by zero and computes with \<^verbatim>\<open>NaN\<close>. Every general
  theorem below assumes an alphabet of at least two characters, which the specification
  requires of an alphabet.

  Strings are \<^typ>\<open>string\<close>; a \<^typ>\<open>char\<close> stands for one code unit of a JavaScript string.
\<close>

subsection \<open>The string and array primitives the source calls\<close>

text \<open>\<^verbatim>\<open>s.split(sep)\<close> for a one-character separator: the fields between the separators,
  one more than there are separators, so never the empty array.\<close>

fun split :: "char \<Rightarrow> string \<Rightarrow> string list" where
  "split sep [] = [[]]"
| "split sep (c # cs) =
     (if c = sep then [] # split sep cs
      else (case split sep cs of
              [] \<Rightarrow> [[c]]
            | f # fs \<Rightarrow> (c # f) # fs))"

text \<open>\<^verbatim>\<open>a[i]\<close> on an array: \<^verbatim>\<open>undefined\<close> (here \<open>None\<close>) out of range.\<close>

definition at_index :: "'a list \<Rightarrow> nat \<Rightarrow> 'a option" where
  "at_index xs i = (if i < length xs then Some (xs ! i) else None)"

text \<open>\<^verbatim>\<open>s.charAt(i)\<close>: the one-character string at index \<open>i\<close>, the empty string out of
  range.\<close>

definition charAt :: "string \<Rightarrow> int \<Rightarrow> string" where
  "charAt s i = (if 0 \<le> i \<and> i < int (length s) then [s ! nat i] else [])"

text \<open>\<^verbatim>\<open>s.indexOf(c)\<close> for a one-character string \<open>c\<close>: the first index holding \<open>c\<close>,
  \<open>-1\<close> when there is none.\<close>

fun indexOf :: "string \<Rightarrow> char \<Rightarrow> int" where
  "indexOf [] c = - 1"
| "indexOf (x # xs) c =
     (if x = c then 0
      else (let r = indexOf xs c in if r < 0 then - 1 else r + 1))"

text \<open>The decimal numeral of an integer, as \<^verbatim>\<open>String(n)\<close> prints it.\<close>

definition digit_char :: "nat \<Rightarrow> char" where
  "digit_char d = ''0123456789'' ! d"

fun show_nat :: "nat \<Rightarrow> string" where
  "show_nat n =
     (if n < 10 then [digit_char n]
      else show_nat (n div 10) @ [digit_char (n mod 10)])"

declare show_nat.simps [simp del]

definition show_int :: "int \<Rightarrow> string" where
  "show_int i = (if i < 0 then CHR ''-'' # show_nat (nat (- i)) else show_nat (nat i))"

text \<open>\<^verbatim>\<open>a.join(",")\<close>, which is also \<^verbatim>\<open>a.toString()\<close> for an array.\<close>

fun join :: "string list \<Rightarrow> string" where
  "join [] = []"
| "join [x] = x"
| "join (x # y # ys) = x @ CHR '','' # join (y # ys)"

text \<open>
  \<^verbatim>\<open>urlmap[id]\<close> with an array \<open>id\<close> of numbers: a property name is a string, so the array
  is converted by \<^verbatim>\<open>toString\<close>, and the property read or written is the one named by the
  decimal numerals of the elements joined with commas (\<^verbatim>\<open>[1, 4, 5]\<close> names \<^verbatim>\<open>"1,4,5"\<close>,
  the empty array names the empty string). The object \<^verbatim>\<open>urlmap\<close> starts as \<^verbatim>\<open>{}\<close>; the
  properties it inherits from its prototype have names spelled with letters and
  underscores, which no array of integers names, so \<^verbatim>\<open>urlmap\<close> is modelled by its own
  properties: a map from names to long URLs.
\<close>

definition property_key :: "int list \<Rightarrow> string" where
  "property_key ds = join (map show_int ds)"

subsection \<open>The arithmetic of doubles on integers\<close>

text \<open>The number of binary digits of a positive integer: \<open>2 ^ (k - 1) \<le> n < 2 ^ k\<close>.\<close>

function bit_length :: "int \<Rightarrow> int" where
  "bit_length n = (if n \<le> 0 then 0 else 1 + bit_length (n div 2))"
  by pat_completeness auto
termination
  by (relation "measure nat") auto

declare bit_length.simps [simp del]

text \<open>Rounding to nearest, ties to even: the significand \<open>m\<close> with a remainder \<open>rest\<close>
  out of \<open>unit\<close> goes up when the remainder is more than half the unit, or exactly half
  and \<open>m\<close> is odd.\<close>

definition round_half_even :: "int \<Rightarrow> int \<Rightarrow> int \<Rightarrow> int" where
  "round_half_even m rest unit =
     (if unit < 2 * rest \<or> (2 * rest = unit \<and> odd m) then m + 1 else m)"

text \<open>
  The double nearest to the quotient \<open>a / b\<close> of two positive integers has a significand
  of 53 binary digits. With \<open>f\<close> fraction bits the quotient is the significand divided by
  \<open>2 ^ f\<close> (multiplied by \<open>2 ^ (- f)\<close> when \<open>f\<close> is negative): a quotient of at least 1
  whose integer part has \<open>k\<close> digits has \<open>53 - k\<close> fraction bits, and a quotient below 1 has
  52 more than the digits of the integer part of its inverse.
\<close>

definition fraction_bits :: "int \<Rightarrow> int \<Rightarrow> int" where
  "fraction_bits a b =
     (if b \<le> a then 53 - bit_length (a div b) else 52 + bit_length (b div a))"

definition significand :: "int \<Rightarrow> int \<Rightarrow> int" where
  "significand a b =
     (let f = fraction_bits a b
      in if 0 \<le> f
         then round_half_even (a * 2 ^ nat f div b) (a * 2 ^ nat f mod b) b
         else round_half_even (a div (b * 2 ^ nat (- f))) (a mod (b * 2 ^ nat (- f)))
                (b * 2 ^ nat (- f)))"

text \<open>\<^verbatim>\<open>Math.floor(a / b)\<close> for an integer \<open>a\<close> and a positive integer \<open>b\<close>: the floor of
  the double nearest to the quotient, which has the sign of \<open>a\<close>.\<close>

definition floor_double :: "int \<Rightarrow> int \<Rightarrow> int" where
  "floor_double a b =
     (if a = 0 then 0
      else (let f = fraction_bits \<bar>a\<bar> b; m = sgn a * significand \<bar>a\<bar> b
            in if 0 \<le> f then m div 2 ^ nat f else m * 2 ^ nat (- f)))"

text \<open>The double nearest to an integer \<open>x\<close>, which is an integer itself and so its own
  floor: \<open>x\<close> for every \<open>x\<close> up to \<open>2 ^ 53\<close>, and \<open>2 ^ 53\<close> again for \<open>2 ^ 53 + 1\<close>.\<close>

definition round_double :: "int \<Rightarrow> int" where
  "round_double x = floor_double x 1"

subsection \<open>The closure\<close>

record session =
  alphabet :: string
  protocol :: string
  ids :: int
  urlmap :: "string \<rightharpoonup> string"

text \<open>\<^verbatim>\<open>shortener(alphabet, protocol, ids)\<close>: the closure, with \<^verbatim>\<open>urlmap = {}\<close>.\<close>

definition shortener :: "string \<Rightarrow> string \<Rightarrow> int \<Rightarrow> session" where
  "shortener al proto start =
     \<lparr>alphabet = al, protocol = proto, ids = start, urlmap = Map.empty\<rparr>"

datatype error = TypeError

text \<open>\<^verbatim>\<open>nextid\<close>: \<^verbatim>\<open>return ids++\<close>. The value returned is the old one, and the new one
  is the double nearest to the old one plus one.\<close>

definition nextid :: "session \<Rightarrow> int \<times> session" where
  "nextid s = (ids s, s\<lparr>ids := round_double (ids s + 1)\<rparr>)"

text \<open>\<^verbatim>\<open>getPath\<close>: \<^verbatim>\<open>url.split('/')[3]\<close>, \<^verbatim>\<open>undefined\<close> when the split has fewer than
  four fields.\<close>

definition getPath :: "string \<Rightarrow> string option" where
  "getPath url = (let splitUrl = split CHR ''/'' url in at_index splitUrl 3)"

text \<open>
  \<^verbatim>\<open>toDigits\<close>: the \<^verbatim>\<open>do ... while (id > 0)\<close> loop, whose body runs before the test.
  The loop need not end (it does not for a positive \<open>id\<close> and a one-character alphabet),
  so it is a partial function: \<open>None\<close> is the run that never returns.
  The variable \<^verbatim>\<open>id\<close> of the source is \<open>idn\<close> here, and \<open>digits\<close> once
  \<^verbatim>\<open>shorten\<close> and \<^verbatim>\<open>expand\<close> have made it an array.
\<close>

partial_function (option) toDigits_loop :: "int \<Rightarrow> int \<Rightarrow> int list \<Rightarrow> int list option" where
  "toDigits_loop alphabetLength idn idArray =
     (let remainder = idn smod alphabetLength;
          idArray' = idArray @ [remainder];
          idn' = floor_double idn alphabetLength
      in if idn' > 0 then toDigits_loop alphabetLength idn' idArray' else Some idArray')"

declare toDigits_loop.simps [code]

definition toDigits :: "string \<Rightarrow> int \<Rightarrow> int list option" where
  "toDigits al idn =
     (let alphabetLength = int (length al)
      in map_option rev (toDigits_loop alphabetLength idn []))"

text \<open>The loop of \<^verbatim>\<open>shorten\<close> (lines 107 to 109): \<^verbatim>\<open>code += alphabet.charAt(id[index])\<close>
  for every index of the digit array.\<close>

fun encodeDigits :: "string \<Rightarrow> int list \<Rightarrow> string" where
  "encodeDigits al [] = []"
| "encodeDigits al (d # ds) = charAt al d @ encodeDigits al ds"

text \<open>The loop of \<^verbatim>\<open>expand\<close> (lines 131 to 133): \<^verbatim>\<open>id.push(alphabet.indexOf(path[index]))\<close>
  for every index of the path.\<close>

fun decodeCode :: "string \<Rightarrow> string \<Rightarrow> int list" where
  "decodeCode al [] = []"
| "decodeCode al (c # cs) = indexOf al c # decodeCode al cs"

text \<open>\<^verbatim>\<open>shorten\<close>. It returns nothing (\<open>None\<close>) when \<^verbatim>\<open>toDigits\<close> does not return.\<close>

definition shorten :: "session \<Rightarrow> string \<Rightarrow> (string \<times> session) option" where
  "shorten s urll =
     (let (n, s1) = nextid s
      in case toDigits (alphabet s1) n of
           None \<Rightarrow> None
         | Some digits \<Rightarrow>
             (let code = encodeDigits (alphabet s1) digits;
                  s2 = s1\<lparr>urlmap := (urlmap s1)(property_key digits \<mapsto> urll)\<rparr>
              in Some (protocol s2 @ code, s2)))"

text \<open>
  \<^verbatim>\<open>expand\<close>. Reading \<^verbatim>\<open>path.length\<close> of an \<^verbatim>\<open>undefined\<close> path throws a \<^verbatim>\<open>TypeError\<close>;
  otherwise the result is the property of \<^verbatim>\<open>urlmap\<close>, \<^verbatim>\<open>undefined\<close> (\<open>None\<close>) when there
  is none. The closure is returned as it was received: \<^verbatim>\<open>expand\<close> assigns to none of its
  variables.
\<close>

definition expand :: "session \<Rightarrow> string \<Rightarrow> (error + string option) \<times> session" where
  "expand s urls =
     (case getPath urls of
        None \<Rightarrow> (Inl TypeError, s)
      | Some path \<Rightarrow>
          (let digits = decodeCode (alphabet s) path
           in (Inr (urlmap s (property_key digits)), s)))"

subsection \<open>Sessions\<close>

text \<open>
  The callers of a closure (the checks at the end of the source are such a caller) invoke
  \<^verbatim>\<open>shorten\<close> and \<^verbatim>\<open>expand\<close> in some order. A session is the list of these calls;
  \<open>run\<close> performs them from a given closure and collects what each returned. A
  \<^verbatim>\<open>TypeError\<close> thrown by \<^verbatim>\<open>expand\<close> is recorded and the session goes on, as it does
  for a caller that catches it. The run is \<open>None\<close> when a call does not return.
\<close>

datatype call = Shorten string | Expand string

datatype reply = Shortened string | Expanded "error + string option"

fun run :: "session \<Rightarrow> call list \<Rightarrow> (reply list \<times> session) option" where
  "run s [] = Some ([], s)"
| "run s (Shorten urll # cs) =
     (case shorten s urll of
        None \<Rightarrow> None
      | Some (short, s') \<Rightarrow>
          (case run s' cs of
             None \<Rightarrow> None
           | Some (rs, s'') \<Rightarrow> Some (Shortened short # rs, s'')))"
| "run s (Expand urls # cs) =
     (case expand s urls of
        (r, s') \<Rightarrow>
          (case run s' cs of
             None \<Rightarrow> None
           | Some (rs, s'') \<Rightarrow> Some (Expanded r # rs, s'')))"

text \<open>The setup code of the source (lines 154 to 163): its alphabet, protocol and
  starting identifier.\<close>

definition setup_alphabet :: string where
  "setup_alphabet = ''abcdefghijklmnopqrstuvwxyz'' @ ''ABCDEFGHIJKLMNOPQRSTUVWXYZ'' @ ''0123456789''"

definition setup_protocol :: string where
  "setup_protocol = ''http://short.ly/''"

definition startID :: int where
  "startID = 4097"

text \<open>The closure that the checks of the source work on (lines 172 and 188).\<close>

definition shortly :: session where
  "shortly = shortener setup_alphabet setup_protocol startID"

subsection \<open>The inverse that the specification names\<close>

text \<open>
  The source has no function from a digit array back to the identifier. The specification
  names one, \<open>toDigitsToId\<close>, as the value of the digits in positional notation in base
  \<open>radix\<close>, the length of the alphabet, most significant digit first: a digit followed
  by \<open>k\<close> more digits weighs \<open>radix ^ k\<close>.
\<close>

fun toDigitsToId :: "string \<Rightarrow> int list \<Rightarrow> int" where
  "toDigitsToId al [] = 0"
| "toDigitsToId al (d # ds) = d * int (length al) ^ length ds + toDigitsToId al ds"

subsection \<open>The invariant of the registry\<close>

text \<open>
  Every property of \<^verbatim>\<open>urlmap\<close> is named by the digits of an identifier that
  \<^verbatim>\<open>nextid\<close> has already handed out, and the counter is between 0 and \<open>2 ^ 53\<close>, where
  adding one is exact.
\<close>

definition registry_inv :: "session \<Rightarrow> bool" where
  "registry_inv s \<longleftrightarrow>
     2 \<le> length (alphabet s) \<and> 0 \<le> ids s \<and> ids s \<le> 2 ^ 53 \<and>
     (\<forall>k \<in> dom (urlmap s).
        \<exists>n ds. 0 \<le> n \<and> n < ids s \<and> toDigits (alphabet s) n = Some ds \<and>
               k = property_key ds)"

section \<open>Properties of the primitives\<close>

subsection \<open>Splitting, decimal numerals and property names\<close>

lemma split_not_Nil: "split sep s \<noteq> []"
  by (induction s) (auto split: list.splits)

lemma digit_char_in: "d < 10 \<Longrightarrow> digit_char d \<in> set ''0123456789''"
  unfolding digit_char_def by (rule nth_mem) simp

lemma digit_char_inj: "d < 10 \<Longrightarrow> e < 10 \<Longrightarrow> digit_char d = digit_char e \<Longrightarrow> d = e"
proof -
  assume a: "d < 10" "e < 10" "digit_char d = digit_char e"
  have "distinct ''0123456789''" by simp
  then show "d = e" using a unfolding digit_char_def
    by (simp add: nth_eq_iff_index_eq)
qed

lemma set_show_nat: "set (show_nat n) \<subseteq> set ''0123456789''"
proof (induction n rule: show_nat.induct)
  case (1 n)
  show ?case
  proof (cases "n < 10")
    case True
    then show ?thesis using digit_char_in [of n] by (subst show_nat.simps) simp
  next
    case False
    have "n mod 10 < 10" by simp
    then have "digit_char (n mod 10) \<in> set ''0123456789''" by (rule digit_char_in)
    then show ?thesis using False 1 by (subst show_nat.simps) simp
  qed
qed

lemma show_nat_not_Nil: "show_nat n \<noteq> []"
  by (subst show_nat.simps) simp

lemma show_nat_small: "n < 10 \<Longrightarrow> show_nat n = [digit_char n]"
  by (subst show_nat.simps) simp

lemma show_nat_large:
  "\<not> n < 10 \<Longrightarrow> show_nat n = show_nat (n div 10) @ [digit_char (n mod 10)]"
  by (subst show_nat.simps) simp

lemma show_nat_large_length: "\<not> n < 10 \<Longrightarrow> 2 \<le> length (show_nat n)"
proof -
  assume n: "\<not> n < 10"
  have "1 \<le> length (show_nat (n div 10))"
    using show_nat_not_Nil [of "n div 10"] by (cases "show_nat (n div 10)") simp_all
  then show ?thesis by (simp add: show_nat_large [OF n])
qed

lemma show_nat_inj: "show_nat m = show_nat n \<Longrightarrow> m = n"
proof (induction m arbitrary: n rule: show_nat.induct)
  case (1 m)
  note eq = \<open>show_nat m = show_nat n\<close>
  show ?case
  proof (cases "m < 10")
    case m: True
    show ?thesis
    proof (cases "n < 10")
      case True
      have "[digit_char m] = [digit_char n]"
        using eq show_nat_small [OF m] show_nat_small [OF True] by simp
      then show ?thesis using digit_char_inj [OF m True] by simp
    next
      case False
      have "length (show_nat m) = 1" by (simp add: show_nat_small [OF m])
      moreover have "2 \<le> length (show_nat n)" using False by (rule show_nat_large_length)
      ultimately show ?thesis using eq by simp
    qed
  next
    case m: False
    show ?thesis
    proof (cases "n < 10")
      case True
      have "length (show_nat n) = 1" by (simp add: show_nat_small [OF True])
      moreover have "2 \<le> length (show_nat m)" using m by (rule show_nat_large_length)
      ultimately show ?thesis using eq by simp
    next
      case False
      have "show_nat (m div 10) @ [digit_char (m mod 10)] =
            show_nat (n div 10) @ [digit_char (n mod 10)]"
        using eq show_nat_large [OF m] show_nat_large [OF False] by simp
      then have q: "show_nat (m div 10) = show_nat (n div 10)"
        and d: "digit_char (m mod 10) = digit_char (n mod 10)"
        by simp_all
      have "m div 10 = n div 10" using "1.IH" [OF m q] .
      moreover have "m mod 10 = n mod 10" using d by (intro digit_char_inj) simp_all
      ultimately show ?thesis by (metis div_mult_mod_eq)
    qed
  qed
qed

lemma show_nat_avoids: "c \<notin> set ''0123456789'' \<Longrightarrow> c \<notin> set (show_nat n)"
  using set_show_nat [of n] by (rule contra_subsetD)

lemma show_nat_no_comma: "CHR '','' \<notin> set (show_nat n)"
  by (rule show_nat_avoids) simp

lemma show_nat_no_minus: "CHR ''-'' \<notin> set (show_nat n)"
  by (rule show_nat_avoids) simp

lemma show_int_not_Nil: "show_int i \<noteq> []"
  by (simp add: show_int_def show_nat_not_Nil)

lemma show_int_no_comma: "CHR '','' \<notin> set (show_int i)"
  by (simp add: show_int_def show_nat_no_comma)

lemma show_nat_not_minus: "show_nat n \<noteq> CHR ''-'' # r"
proof
  assume "show_nat n = CHR ''-'' # r"
  then have "CHR ''-'' \<in> set (show_nat n)" by simp
  then show False using show_nat_no_minus by blast
qed

lemma show_int_inj: "show_int i = show_int j \<Longrightarrow> i = j"
proof -
  assume eq: "show_int i = show_int j"
  show "i = j"
  proof (cases "i < 0")
    case i: True
    show ?thesis
    proof (cases "j < 0")
      case True
      then have "show_nat (nat (- i)) = show_nat (nat (- j))"
        using i eq by (simp add: show_int_def)
      then have "nat (- i) = nat (- j)" by (rule show_nat_inj)
      then show ?thesis using i True by simp
    next
      case False
      then have "show_nat (nat j) = CHR ''-'' # show_nat (nat (- i))"
        using i eq by (simp add: show_int_def)
      then show ?thesis using show_nat_not_minus by blast
    qed
  next
    case i: False
    show ?thesis
    proof (cases "j < 0")
      case True
      then have "show_nat (nat i) = CHR ''-'' # show_nat (nat (- j))"
        using i eq by (simp add: show_int_def)
      then show ?thesis using show_nat_not_minus by blast
    next
      case False
      then have "show_nat (nat i) = show_nat (nat j)"
        using i eq by (simp add: show_int_def)
      then have "nat i = nat j" by (rule show_nat_inj)
      then show ?thesis using i False by simp
    qed
  qed
qed

lemma split_no_sep: "sep \<notin> set a \<Longrightarrow> split sep a = [a]"
  by (induction a) auto

lemma split_append_sep: "sep \<notin> set a \<Longrightarrow> split sep (a @ sep # r) = a # split sep r"
  by (induction a) auto

lemma split_join:
  "xs \<noteq> [] \<Longrightarrow> \<forall>x \<in> set xs. CHR '','' \<notin> set x \<Longrightarrow> split CHR '','' (join xs) = xs"
proof (induction xs rule: join.induct)
  case 1
  then show ?case by simp
next
  case (2 x)
  then show ?case by (simp add: split_no_sep)
next
  case (3 x y ys)
  have "CHR '','' \<notin> set x" using "3.prems" by simp
  then have "split CHR '','' (join (x # y # ys)) = x # split CHR '','' (join (y # ys))"
    by (simp add: split_append_sep)
  moreover have "split CHR '','' (join (y # ys)) = y # ys"
    using "3.prems" by (intro "3.IH") simp_all
  ultimately show ?case by simp
qed

lemma join_eq_Nil: "join xs = [] \<Longrightarrow> \<forall>x \<in> set xs. x \<noteq> [] \<Longrightarrow> xs = []"
  by (induction xs rule: join.induct) auto


lemma show_ints_no_comma: "\<forall>x \<in> set (map show_int zs). CHR '','' \<notin> set x"
  by (induction zs) (simp_all add: show_int_no_comma)

lemma show_ints_not_Nil: "\<forall>x \<in> set (map show_int zs). x \<noteq> []"
  by (induction zs) (simp_all add: show_int_not_Nil)

lemma map_show_int_inj: "map show_int ds = map show_int es \<Longrightarrow> ds = es"
proof (induction ds arbitrary: es)
  case Nil
  then show ?case by simp
next
  case (Cons d ds)
  then obtain e es' where es: "es = e # es'" by (cases es) auto
  with Cons.prems have "show_int d = show_int e" and "map show_int ds = map show_int es'"
    by simp_all
  then show ?case using es Cons.IH show_int_inj by blast
qed

lemma join_show_Nil: "join (map show_int ds) = [] \<Longrightarrow> ds = []"
proof -
  assume "join (map show_int ds) = []"
  then have "map show_int ds = []" using show_ints_not_Nil [of ds] by (rule join_eq_Nil)
  then show "ds = []" by simp
qed

lemma split_join_show:
  "ds \<noteq> [] \<Longrightarrow> split CHR '','' (join (map show_int ds)) = map show_int ds"
proof -
  assume "ds \<noteq> []"
  then have "map show_int ds \<noteq> []" by simp
  then show ?thesis using show_ints_no_comma [of ds] by (rule split_join)
qed

lemma property_key_inj: "property_key ds = property_key es \<Longrightarrow> ds = es"
proof -
  assume "property_key ds = property_key es"
  then have eq: "join (map show_int ds) = join (map show_int es)"
    by (simp only: property_key_def)
  show "ds = es"
  proof (cases "ds = []")
    case True
    then have "join (map show_int es) = []" using eq by simp
    then have "es = []" by (rule join_show_Nil)
    then show ?thesis using True by simp
  next
    case ds: False
    show ?thesis
    proof (cases "es = []")
      case True
      then have "join (map show_int ds) = []" using eq by simp
      then have "ds = []" by (rule join_show_Nil)
      then show ?thesis using ds by simp
    next
      case False
      have "map show_int ds = split CHR '','' (join (map show_int ds))"
        using split_join_show [OF ds] by simp
      also have "\<dots> = split CHR '','' (join (map show_int es))"
        by (simp only: eq)
      also have "\<dots> = map show_int es" using False by (rule split_join_show)
      finally show ?thesis by (rule map_show_int_inj)
    qed
  qed
qed

text \<open>A property name made from an array of integers is spelled with digits, commas and
  minus signs only, so it is never the name of a property that \<^verbatim>\<open>urlmap\<close> inherits.\<close>

lemma set_join: "c \<in> set (join xs) \<Longrightarrow> c = CHR '','' \<or> (\<exists>x \<in> set xs. c \<in> set x)"
  by (induction xs rule: join.induct) auto

lemma property_key_chars:
  assumes "c \<in> set (property_key ds)"
  shows "c = CHR '','' \<or> c = CHR ''-'' \<or> c \<in> set ''0123456789''"
proof -
  from assms have "c = CHR '','' \<or> (\<exists>x \<in> set (map show_int ds). c \<in> set x)"
    unfolding property_key_def by (rule set_join)
  then show ?thesis
  proof
    assume "c = CHR '',''"
    then show ?thesis by (rule disjI1)
  next
    assume "\<exists>x \<in> set (map show_int ds). c \<in> set x"
    then obtain d where d: "c \<in> set (show_int d)" by auto
    show ?thesis
    proof (cases "d < 0")
      case True
      with d have "c = CHR ''-'' \<or> c \<in> set (show_nat (nat (- d)))"
        by (simp add: show_int_def)
      then show ?thesis using set_show_nat [of "nat (- d)"] by blast
    next
      case False
      with d have "c \<in> set (show_nat (nat d))" by (simp add: show_int_def)
      then show ?thesis using set_show_nat [of "nat d"] by blast
    qed
  qed
qed

subsection \<open>Characters and indices\<close>

lemma indexOf_lower: "- 1 \<le> indexOf al c"
  by (induction al) (auto simp: Let_def)

lemma indexOf_upper: "indexOf al c < int (length al)"
  by (induction al) (auto simp: Let_def)

lemma indexOf_nth: "0 \<le> indexOf al c \<Longrightarrow> al ! nat (indexOf al c) = c"
proof (induction al)
  case Nil
  then show ?case by simp
next
  case (Cons x xs)
  show ?case
  proof (cases "x = c")
    case True
    then show ?thesis by simp
  next
    case False
    with Cons.prems have r: "0 \<le> indexOf xs c"
      by (simp add: Let_def split: if_splits)
    then have "indexOf (x # xs) c = indexOf xs c + 1" using False by (simp add: Let_def)
    moreover have "nat (indexOf xs c + 1) = Suc (nat (indexOf xs c))" using r by simp
    ultimately show ?thesis using Cons.IH [OF r] by simp
  qed
qed

lemma indexOf_absent: "c \<notin> set al \<Longrightarrow> indexOf al c = - 1"
  by (induction al) (auto simp: Let_def)

lemma indexOf_distinct: "distinct al \<Longrightarrow> i < length al \<Longrightarrow> indexOf al (al ! i) = int i"
proof (induction al arbitrary: i)
  case Nil
  then show ?case by simp
next
  case (Cons x xs)
  show ?case
  proof (cases i)
    case 0
    then show ?thesis by simp
  next
    case (Suc j)
    with Cons.prems have j: "j < length xs" and d: "distinct xs" and "xs ! j \<noteq> x"
      by auto
    then show ?thesis using Suc Cons.IH [OF d j] by (simp add: Let_def)
  qed
qed

lemma decodeCode_append: "decodeCode al (xs @ ys) = decodeCode al xs @ decodeCode al ys"
  by (induction xs) simp_all

lemma decodeCode_encodeDigits:
  "distinct al \<Longrightarrow> \<forall>d \<in> set ds. 0 \<le> d \<and> d < int (length al) \<Longrightarrow>
   decodeCode al (encodeDigits al ds) = ds"
proof (induction ds)
  case Nil
  then show ?case by simp
next
  case (Cons d ds)
  then have "nat d < length al" and "0 \<le> d" by auto
  then have "indexOf al (al ! nat d) = d"
    using indexOf_distinct [OF Cons.prems(1), of "nat d"] by simp
  then show ?case using Cons by (simp add: charAt_def)
qed

lemma encodeDigits_decodeCode:
  "\<forall>d \<in> set (decodeCode al code). 0 \<le> d \<Longrightarrow> encodeDigits al (decodeCode al code) = code"
proof (induction code)
  case Nil
  then show ?case by simp
next
  case (Cons c cs)
  then have "0 \<le> indexOf al c" by simp
  then have "charAt al (indexOf al c) = [c]"
    using indexOf_nth [of al c] indexOf_upper [of al c] by (simp add: charAt_def)
  then show ?case using Cons by simp
qed

lemma set_encodeDigits: "set (encodeDigits al ds) \<subseteq> set al"
  by (induction ds) (auto simp: charAt_def)

subsection \<open>Doubles\<close>

lemma bit_length_nonpos: "n \<le> 0 \<Longrightarrow> bit_length n = 0"
  by (subst bit_length.simps) simp

lemma bit_length_pos_step: "0 < n \<Longrightarrow> bit_length n = 1 + bit_length (n div 2)"
  by (subst bit_length.simps) simp

lemma bit_length_nonneg: "0 \<le> bit_length n"
proof (induction n rule: bit_length.induct)
  case (1 n)
  show ?case
  proof (cases "n \<le> 0")
    case True
    then show ?thesis by (simp add: bit_length_nonpos)
  next
    case False
    then show ?thesis using 1 by (simp add: bit_length_pos_step)
  qed
qed

lemma bit_length_pos: "0 < n \<Longrightarrow> 1 \<le> bit_length n"
  using bit_length_nonneg [of "n div 2"] by (simp add: bit_length_pos_step)

lemma bit_length_bounds:
  "0 < n \<Longrightarrow> 2 ^ nat (bit_length n - 1) \<le> n \<and> n < 2 ^ nat (bit_length n)"
proof (induction n rule: bit_length.induct)
  case (1 n)
  show ?case
  proof (cases "n = 1")
    case True
    then show ?thesis
      by (simp add: bit_length_pos_step [of 1] bit_length_nonpos)
  next
    case False
    with "1.prems" have h: "0 < n div 2" by simp
    have step: "bit_length n = 1 + bit_length (n div 2)"
      using "1.prems" by (rule bit_length_pos_step)
    from "1.IH" h "1.prems" have
      lo: "2 ^ nat (bit_length (n div 2) - 1) \<le> n div 2"
      and hi: "n div 2 < 2 ^ nat (bit_length (n div 2))"
      by simp_all
    have k: "1 \<le> bit_length (n div 2)" using h by (rule bit_length_pos)
    then have e: "nat (bit_length (n div 2)) = Suc (nat (bit_length (n div 2) - 1))"
      by simp
    have "2 * 2 ^ nat (bit_length (n div 2) - 1) \<le> 2 * (n div 2)" using lo by simp
    also have "\<dots> \<le> n" by simp
    finally have lo': "2 ^ nat (bit_length (n div 2)) \<le> n" by (simp add: e)
    have "n < 2 * (n div 2) + 2" by simp
    also have "\<dots> \<le> 2 * 2 ^ nat (bit_length (n div 2))" using hi by simp
    finally have hi': "n < 2 ^ Suc (nat (bit_length (n div 2)))" by simp
    have "nat (1 + bit_length (n div 2)) = Suc (nat (bit_length (n div 2)))"
      using k by simp
    then show ?thesis using lo' hi' by (simp add: step)
  qed
qed

lemma bit_length_le: "0 < n \<Longrightarrow> n < 2 ^ j \<Longrightarrow> bit_length n \<le> int j"
proof (rule ccontr)
  assume n: "0 < n" "n < 2 ^ j" and "\<not> bit_length n \<le> int j"
  then have "j \<le> nat (bit_length n - 1)" by simp
  then have "(2::int) ^ j \<le> 2 ^ nat (bit_length n - 1)" by (simp add: power_increasing)
  also have "\<dots> \<le> n" using bit_length_bounds [OF n(1)] by simp
  finally show False using n(2) by simp
qed

lemma bit_length_gt: "2 ^ j \<le> n \<Longrightarrow> int j < bit_length n"
proof (rule ccontr)
  assume n: "2 ^ j \<le> n" and "\<not> int j < bit_length n"
  then have k: "nat (bit_length n) \<le> j" by simp
  have "(0::int) < 2 ^ j" by simp
  then have pos: "0 < n" using n(1) by linarith
  have "n < 2 ^ nat (bit_length n)" using bit_length_bounds [OF pos] by simp
  also have "\<dots> \<le> 2 ^ j" using k by (simp add: power_increasing)
  finally show False using n(1) by simp
qed

lemma round_half_even_bounds: "m \<le> round_half_even m r u \<and> round_half_even m r u \<le> m + 1"
  by (simp add: round_half_even_def)

lemma round_half_even_up: "round_half_even m r u \<noteq> m \<Longrightarrow> u \<le> 2 * r"
  by (auto simp: round_half_even_def split: if_splits)

lemma round_half_even_exact: "0 < u \<Longrightarrow> round_half_even m 0 u = m"
  by (simp add: round_half_even_def)

lemma floor_double_zero: "floor_double 0 b = 0"
  by (simp add: floor_double_def)

lemma floor_double_frac:
  assumes "0 < a" "0 \<le> fraction_bits a b"
  shows "floor_double a b =
     round_half_even (a * 2 ^ nat (fraction_bits a b) div b)
       (a * 2 ^ nat (fraction_bits a b) mod b) b div 2 ^ nat (fraction_bits a b)"
  using assms by (simp add: floor_double_def significand_def Let_def)

lemma floor_double_int:
  assumes "0 < a" "fraction_bits a b < 0"
  shows "floor_double a b =
     round_half_even (a div (b * 2 ^ nat (- fraction_bits a b)))
       (a mod (b * 2 ^ nat (- fraction_bits a b))) (b * 2 ^ nat (- fraction_bits a b))
     * 2 ^ nat (- fraction_bits a b)"
  using assms by (simp add: floor_double_def significand_def Let_def)

lemma significand_nonneg:
  assumes "0 < a" "0 < b"
  shows "0 \<le> significand a b"
proof -
  have p: "0 < b * 2 ^ n" for n :: nat using assms(2) by simp
  have "0 \<le> a * 2 ^ n div b" for n :: nat
    using assms by (simp add: pos_imp_zdiv_nonneg_iff)
  moreover have "0 \<le> a div (b * 2 ^ n)" for n :: nat
    using assms p [of n] by (simp add: pos_imp_zdiv_nonneg_iff)
  moreover have "m \<le> round_half_even m r u" for m r u :: int
    using round_half_even_bounds [of m r u] by simp
  ultimately have "0 \<le> round_half_even (a * 2 ^ n div b) r u"
    and "0 \<le> round_half_even (a div (b * 2 ^ n)) r u" for n :: nat and r u :: int
    using order_trans by blast+
  then show ?thesis by (simp add: significand_def Let_def)
qed

lemma floor_double_nonneg:
  assumes "0 < a" "0 < b"
  shows "0 \<le> floor_double a b"
proof -
  have s: "0 \<le> significand a b" using assms by (rule significand_nonneg)
  have "0 \<le> significand a b div 2 ^ n" for n :: nat
    using s by (simp add: pos_imp_zdiv_nonneg_iff)
  moreover have "0 \<le> significand a b * 2 ^ n" for n :: nat using s by simp
  ultimately show ?thesis using assms(1) by (simp add: floor_double_def Let_def)
qed

lemma floor_double_neg:
  assumes "a < 0" "0 < b"
  shows "floor_double a b \<le> 0"
proof -
  have s: "0 \<le> significand \<bar>a\<bar> b" using assms by (intro significand_nonneg) simp_all
  have "- significand \<bar>a\<bar> b div 2 ^ n \<le> 0" for n :: nat
  proof -
    have "- significand \<bar>a\<bar> b \<le> 0" using s by simp
    moreover have "(0::int) < 2 ^ n" by simp
    ultimately show ?thesis by (rule div_nonpos_pos_le0)
  qed
  moreover have "- significand \<bar>a\<bar> b * 2 ^ n \<le> 0" for n :: nat
    using s by (simp add: mult_nonneg_nonneg)
  ultimately show ?thesis using assms(1) by (simp add: floor_double_def Let_def)
qed

lemma floor_double_self:
  assumes "0 < b"
  shows "floor_double b b = 1"
proof -
  have one: "bit_length 1 = 1"
    by (simp add: bit_length_pos_step [of 1] bit_length_nonpos)
  have f: "fraction_bits b b = 52" using assms by (simp add: fraction_bits_def one)
  have "floor_double b b = round_half_even (b * 2 ^ 52 div b) (b * 2 ^ 52 mod b) b div 2 ^ 52"
    using floor_double_frac [of b b] assms f by simp
  also have "\<dots> = 1" using assms by (simp add: round_half_even_def)
  finally show ?thesis .
qed

lemma scaled_div:
  fixes a b P :: int
  assumes "0 < P"
  shows "a * P div b div P = a div b"
proof -
  have "a * P div b div P = a * P div (b * P)"
    using zdiv_zmult2_eq [of P "a * P" b] assms by simp
  also have "\<dots> = a div b" using assms by simp
  finally show ?thesis .
qed

lemma div_bounds:
  fixes m P :: int
  assumes "0 < P"
  shows "P * (m div P) \<le> m" and "m < P * (m div P) + P"
proof -
  have "m = P * (m div P) + m mod P" by simp
  moreover have "0 \<le> m mod P" "m mod P < P" using assms by simp_all
  ultimately show "P * (m div P) \<le> m" and "m < P * (m div P) + P" by linarith+
qed

lemma succ_div:
  fixes m P :: int
  assumes "0 < P" "\<not> P dvd m + 1"
  shows "(m + 1) div P = m div P"
proof -
  have "m mod P + 1 \<noteq> P"
  proof
    assume e: "m mod P + 1 = P"
    have "m + 1 = P * (m div P) + (m mod P + 1)" by simp
    then have "m + 1 = P * (m div P + 1)" by (simp only: e distrib_left mult_1_right)
    then show False using assms(2) by (metis dvd_triv_left)
  qed
  moreover have "0 \<le> m mod P" "m mod P < P" using assms(1) by simp_all
  ultimately have r: "0 \<le> m mod P + 1" "m mod P + 1 < P" by simp_all
  have "m + 1 = P * (m div P) + (m mod P + 1)" by simp
  then show ?thesis using r by (rule int_div_pos_eq)
qed

lemma succ_div_le:
  fixes m P :: int
  assumes "0 < P"
  shows "(m + 1) div P \<le> m div P + 1"
proof -
  have "m + 1 \<le> m + P" using assms by simp
  then have "(m + 1) div P \<le> (m + P) div P" using assms by (rule zdiv_mono1)
  also have "(m + P) div P = m div P + 1"
  proof (rule int_div_pos_eq)
    show "m + P = P * (m div P + 1) + m mod P" by (simp add: algebra_simps)
    show "0 \<le> m mod P" "m mod P < P" using assms by simp_all
  qed
  finally show ?thesis .
qed

text \<open>When the significand is rounded up onto a multiple of the scale, the divisor is at
  least twice the scale times the distance of the dividend from the next multiple.\<close>

lemma round_up_carry:
  fixes a b P :: int
  assumes b: "0 < b" and P: "0 < P"
    and up: "round_half_even (a * P div b) (a * P mod b) b \<noteq> a * P div b"
    and carry: "P dvd a * P div b + 1"
  shows "2 * P * (b - a mod b) \<le> b"
proof -
  define m where "m = a * P div b"
  define rest where "rest = a * P mod b"
  define q where "q = a div b"
  have half: "b \<le> 2 * rest" using up unfolding rest_def by (rule round_half_even_up)
  have mq: "m div P = q" unfolding m_def q_def using P by (rule scaled_div)
  from carry obtain c where c: "m + 1 = P * c" unfolding m_def by (auto simp: dvd_def)
  have "P * q \<le> m" "m < P * q + P" using div_bounds [OF P, of m] mq by simp_all
  then have "P * q < m + 1" "m + 1 < P * q + P + 1" by simp_all
  then have "P * q < P * c" "P * c < P * q + P + 1" by (simp_all only: c)
  then have "P * q < P * c" "P * c < P * (q + 2)" using P by (simp_all add: distrib_left)
  then have "q < c" "c < q + 2" using P by (simp_all only: mult_less_cancel_left_pos)
  then have cq: "c = q + 1" by simp
  have m': "m = P * (q + 1) - 1" using c cq by simp
  have "a * P = b * m + rest" unfolding m_def rest_def by simp
  also have "b * m = P * (b * (q + 1)) - b" by (simp add: m' algebra_simps)
  finally have eq: "P * (b * (q + 1) - a) = b - rest" by (simp add: algebra_simps)
  have "b * (q + 1) - a = b - a mod b"
    unfolding q_def using div_mult_mod_eq [of a b] by (simp add: algebra_simps)
  then have "P * (b - a mod b) = b - rest" using eq by simp
  then show ?thesis using half by simp
qed

lemma bit_length_2_53: "bit_length 9007199254740992 = 54"
  by (simp add: bit_length.simps)

lemma floor_double_2_53: "floor_double 9007199254740992 1 = 9007199254740992"
  by (simp add: floor_double_def fraction_bits_def significand_def bit_length_2_53
      round_half_even_def)

lemma floor_double_frac_exact:
  fixes a b :: int
  assumes a: "0 < a" and b: "0 < b" and f: "0 \<le> fraction_bits a b"
    and no_carry: "2 * 2 ^ nat (fraction_bits a b) * (b - a mod b) \<le> b \<Longrightarrow> False"
  shows "floor_double a b = a div b"
proof -
  define P :: int where "P = 2 ^ nat (fraction_bits a b)"
  define m where "m = a * P div b"
  define m' where "m' = round_half_even m (a * P mod b) b"
  have P: "0 < P" by (simp add: P_def)
  have fd: "floor_double a b = m' div P"
    unfolding m'_def m_def P_def using a f by (rule floor_double_frac)
  have mq: "m div P = a div b" unfolding m_def using P by (rule scaled_div)
  show ?thesis
  proof (cases "m' = m")
    case True
    then show ?thesis using fd mq by simp
  next
    case False
    then have m1: "m' = m + 1"
      using round_half_even_bounds [of m "a * P mod b" b] unfolding m'_def by simp
    have "\<not> P dvd m + 1"
    proof
      assume "P dvd m + 1"
      with False have "2 * P * (b - a mod b) \<le> b"
        unfolding m'_def m_def by (intro round_up_carry [OF b P]) simp_all
      then show False unfolding P_def by (rule no_carry)
    qed
    with P have "(m + 1) div P = m div P" by (rule succ_div)
    then show ?thesis using fd mq m1 by simp
  qed
qed

lemma floor_double_exact:
  fixes a b :: int
  assumes a: "0 \<le> a" "a \<le> 2 ^ 53" and b: "0 < b"
  shows "floor_double a b = a div b"
proof (cases "a = 0")
  case True
  then show ?thesis by (simp add: floor_double_zero)
next
  case False
  then have pos: "0 < a" using a(1) by simp
  show ?thesis
  proof (cases "b \<le> a")
    case le: True
    define q where "q = a div b"
    define k where "k = bit_length q"
    have q1: "1 \<le> q" unfolding q_def using le b
      by (metis div_self order_less_imp_not_eq2 zdiv_mono1)
    have bq: "b * q \<le> a" unfolding q_def using div_bounds(1) [OF b, of a] .
    have qa: "q \<le> a"
    proof -
      have "1 * q \<le> b * q" using b q1 by (intro mult_right_mono) simp_all
      then show ?thesis using bq by simp
    qed
    have fb: "fraction_bits a b = 53 - k"
      using le by (simp add: fraction_bits_def k_def q_def)
    have k1: "1 \<le> k" unfolding k_def using q1 by (intro bit_length_pos) simp
    have lo: "2 ^ nat (k - 1) \<le> q"
      unfolding k_def using bit_length_bounds [of q] q1 by simp
    show ?thesis
    proof (cases "0 \<le> 53 - k")
      case frac: True
      show ?thesis
      proof (rule floor_double_frac_exact [OF pos b])
        show "0 \<le> fraction_bits a b" using fb frac by simp
      next
        assume carry: "2 * 2 ^ nat (fraction_bits a b) * (b - a mod b) \<le> b"
        define P :: int where "P = 2 ^ nat (53 - k)"
        have P: "1 \<le> P" by (simp add: P_def)
        have c: "2 * P * (b - a mod b) \<le> b" using carry by (simp add: fb P_def)
        have d: "1 \<le> b - a mod b" using pos_mod_bound [OF b, of a] by simp
        have "2 * P * 1 \<le> 2 * P * (b - a mod b)"
          using P d by (intro mult_left_mono) simp_all
        then have P2: "2 * P \<le> b" using c by simp
        have "nat (53 - k) + nat (k - 1) = 52" using frac k1 by simp
        then have "P * 2 ^ nat (k - 1) = 2 ^ 52"
          unfolding P_def by (metis power_add)
        then have "(2::int) ^ 53 = (2 * P) * 2 ^ nat (k - 1)" by simp
        also have "\<dots> \<le> b * q" using P2 lo b q1 by (intro mult_mono) simp_all
        finally have "2 ^ 53 \<le> b * q" .
        with bq a(2) have "b * q = a" by simp
        then have "a mod b = 0" by (metis mod_mult_self1_is_0)
        with c have "2 * P * b \<le> b" by simp
        moreover have "2 * b \<le> 2 * P * b" using P b by simp
        ultimately show False using b by simp
      qed
    next
      case False
      then have "2 ^ 53 \<le> (2::int) ^ nat (k - 1)" by (intro power_increasing) simp_all
      with lo have "2 ^ 53 \<le> q" by simp
      with qa a(2) have qe: "q = 2 ^ 53" and ae: "a = 2 ^ 53" by simp_all
      have "b * 2 ^ 53 \<le> 2 ^ 53" using bq qe ae by simp
      then have "b = 1" using b by simp
      then show ?thesis using ae floor_double_2_53 by simp
    qed
  next
    case lt: False
    have bd: "1 \<le> b div a" using lt pos
      by (metis div_self order_less_imp_not_eq2 zdiv_mono1 linorder_not_le order_less_imp_le)
    then have "1 \<le> bit_length (b div a)" by (intro bit_length_pos) simp
    then have fb: "53 \<le> fraction_bits a b" using lt by (simp add: fraction_bits_def)
    have small: "a div b = 0" "a mod b = a" using lt pos by simp_all
    show ?thesis
    proof (rule floor_double_frac_exact [OF pos b])
      show "0 \<le> fraction_bits a b" using fb by simp
    next
      assume carry: "2 * 2 ^ nat (fraction_bits a b) * (b - a mod b) \<le> b"
      define P :: int where "P = 2 ^ nat (fraction_bits a b)"
      have "(2::int) ^ 53 \<le> P" unfolding P_def using fb by (intro power_increasing) simp_all
      then have "2 ^ 54 \<le> 2 * P" by simp
      moreover have d: "0 \<le> b - a" using lt by simp
      ultimately have "2 ^ 54 * (b - a) \<le> 2 * P * (b - a)" by (rule mult_right_mono)
      also have "\<dots> \<le> b" using carry by (simp add: P_def small)
      finally have "18014398509481984 * (b - a) \<le> b" by simp
      then have "18014398509481983 * (b - a) \<le> a" by (simp add: algebra_simps)
      moreover have "18014398509481983 * 1 \<le> 18014398509481983 * (b - a)"
        using lt by (intro mult_left_mono) simp_all
      moreover have "a \<le> 9007199254740992" using a(2) by simp
      ultimately show False by simp
    qed
  qed
qed

lemma floor_double_int_bounds:
  fixes a b :: int
  assumes b: "0 < b" and le: "b \<le> a" and f: "fraction_bits a b < 0"
  shows "2 ^ 53 \<le> floor_double a b" and "floor_double a b < 2 * (a div b)"
proof -
  define q where "q = a div b"
  define k where "k = bit_length q"
  define U :: int where "U = 2 ^ nat (k - 53)"
  define m where "m = a div (b * U)"
  define m' where "m' = round_half_even m (a mod (b * U)) (b * U)"
  have pos: "0 < a" using b le by simp
  have fb: "fraction_bits a b = 53 - k" using le by (simp add: fraction_bits_def k_def q_def)
  then have k: "54 \<le> k" using f by simp
  have nf: "nat (- fraction_bits a b) = nat (k - 53)" using fb by simp
  have fd: "floor_double a b = m' * U"
    unfolding m'_def m_def U_def using floor_double_int [OF pos f] by (simp only: nf)
  have q1: "1 \<le> q" unfolding q_def using le b
    by (metis div_self order_less_imp_not_eq2 zdiv_mono1)
  have lo: "2 ^ nat (k - 1) \<le> q" unfolding k_def using bit_length_bounds [of q] q1 by simp
  have U: "2 \<le> U"
  proof -
    have "(2::int) ^ 1 \<le> 2 ^ nat (k - 53)" using k by (intro power_increasing) simp_all
    then show ?thesis by (simp add: U_def)
  qed
  have "nat (k - 1) = 52 + nat (k - 53)" using k by simp
  then have "(2::int) ^ nat (k - 1) = 2 ^ 52 * U" unfolding U_def by (simp add: power_add)
  then have qU: "2 ^ 52 * U \<le> q" using lo by simp
  have mq: "m = q div U"
    unfolding m_def q_def using zdiv_zmult2_eq [of U a b] U by simp
  have mU: "U * m \<le> q" "q < U * m + U" using div_bounds [of U q] U mq by simp_all
  have "2 ^ 52 * U < U * m + U" using qU mU(2) by simp
  then have "U * 2 ^ 52 < U * (m + 1)" by (simp add: algebra_simps)
  then have "2 ^ 52 < m + 1" using U by (simp only: mult_less_cancel_left_pos)
  then have m52: "2 ^ 52 \<le> m" by simp
  have mm: "m \<le> m'" "m' \<le> m + 1"
    using round_half_even_bounds [of m "a mod (b * U)" "b * U"] unfolding m'_def by simp_all
  have "2 ^ 52 * 2 \<le> m' * U" using m52 mm(1) U by (intro mult_mono) simp_all
  then show "2 ^ 53 \<le> floor_double a b" using fd by simp
  have "m' * U \<le> (m + 1) * U" using mm(2) U by (intro mult_right_mono) simp_all
  also have "\<dots> = U * m + U" by (simp add: algebra_simps)
  also have "\<dots> \<le> q + U" using mU(1) by simp
  also have "\<dots> < q + q"
  proof -
    have "1 * U < 2 ^ 52 * U" using U by (intro mult_strict_right_mono) simp_all
    then show ?thesis using qU by simp
  qed
  finally show "floor_double a b < 2 * (a div b)" using fd by (simp add: q_def)
qed

lemma floor_double_frac_upper:
  fixes a b :: int
  assumes a: "0 < a" and b: "0 < b" and f: "0 \<le> fraction_bits a b"
  shows "floor_double a b \<le> a div b + 1"
proof -
  define P :: int where "P = 2 ^ nat (fraction_bits a b)"
  define m where "m = a * P div b"
  define m' where "m' = round_half_even m (a * P mod b) b"
  have P: "0 < P" by (simp add: P_def)
  have fd: "floor_double a b = m' div P"
    unfolding m'_def m_def P_def using a f by (rule floor_double_frac)
  have mq: "m div P = a div b" unfolding m_def using P by (rule scaled_div)
  have "m' \<le> m + 1"
    using round_half_even_bounds [of m "a * P mod b" b] unfolding m'_def by simp
  then have "m' div P \<le> (m + 1) div P" using P by (rule zdiv_mono1)
  also have "\<dots> \<le> m div P + 1" using P by (rule succ_div_le)
  finally show ?thesis using fd mq by simp
qed

lemma floor_double_less:
  fixes a b :: int
  assumes a: "1 \<le> a" and b: "2 \<le> b"
  shows "floor_double a b < a"
proof (cases "a \<le> 2 ^ 53")
  case True
  then have "floor_double a b = a div b" using a b by (intro floor_double_exact) simp_all
  moreover have "a div b < a" using a b by (intro int_div_less_self) simp_all
  ultimately show ?thesis by simp
next
  case False
  then have big: "3 \<le> a" by simp
  have half: "a div b \<le> a div 2" using a b by (intro zdiv_mono2) simp_all
  have b0: "0 < b" and a0: "0 < a" using a b by simp_all
  show ?thesis
  proof (cases "0 \<le> fraction_bits a b")
    case True
    from floor_double_frac_upper [OF a0 b0 True] half have "floor_double a b \<le> a div 2 + 1"
      by simp
    also have "\<dots> < a" using big by simp
    finally show ?thesis .
  next
    case neg: False
    have le: "b \<le> a"
    proof (rule ccontr)
      assume "\<not> b \<le> a"
      then have "fraction_bits a b = 52 + bit_length (b div a)" by (simp add: fraction_bits_def)
      then show False using neg bit_length_nonneg [of "b div a"] by simp
    qed
    from neg have "fraction_bits a b < 0" by simp
    from floor_double_int_bounds(2) [OF b0 le this] have "floor_double a b < 2 * (a div b)" .
    also have "\<dots> \<le> b * (a div b)" using b a0 b0
      by (intro mult_right_mono) (simp_all add: pos_imp_zdiv_nonneg_iff)
    also have "\<dots> \<le> a" using div_bounds(1) [OF b0, of a] .
    finally show ?thesis .
  qed
qed

lemma floor_double_large:
  fixes a :: int
  assumes "2 ^ 53 \<le> a"
  shows "2 ^ 53 \<le> floor_double a 1"
proof -
  have "(1::int) \<le> 2 ^ 53" by simp
  then have a1: "1 \<le> a" using assms by linarith
  have "53 < bit_length a" using assms bit_length_gt [of 53 a] by simp
  then have "fraction_bits a 1 < 0" using a1 by (simp add: fraction_bits_def)
  with a1 show ?thesis by (intro floor_double_int_bounds(1)) simp_all
qed

lemma round_double_exact: "0 \<le> x \<Longrightarrow> x \<le> 2 ^ 53 \<Longrightarrow> round_double x = x"
  unfolding round_double_def using floor_double_exact [of x 1] by simp

lemma round_double_large: "2 ^ 53 \<le> x \<Longrightarrow> 2 ^ 53 \<le> round_double x"
  unfolding round_double_def by (rule floor_double_large)

lemma round_double_nonneg: "0 \<le> x \<Longrightarrow> 0 \<le> round_double x"
  unfolding round_double_def
  using floor_double_nonneg [of x 1] by (cases "x = 0") (simp_all add: floor_double_zero)

lemma round_double_stalls: "round_double (2 ^ 53 + 1) = 2 ^ 53"
  by (simp add: round_double_def floor_double_def fraction_bits_def significand_def
      bit_length.simps round_half_even_def)

subsection \<open>The digit loop\<close>

lemma smod_nonneg: "0 \<le> i \<Longrightarrow> 0 < n \<Longrightarrow> i smod n = i mod (n::int)"
  by (simp add: signed_modulo_int_def sgn_if)

lemma toDigits_loop_step:
  "toDigits_loop n i acc =
     (if 0 < floor_double i n then toDigits_loop n (floor_double i n) (acc @ [i smod n])
      else Some (acc @ [i smod n]))"
  by (subst toDigits_loop.simps) (simp add: Let_def)

lemma toDigitsToId_snoc:
  "toDigitsToId al (ds @ [d]) = toDigitsToId al ds * int (length al) + d"
  by (induction ds) (simp_all add: algebra_simps)

text \<open>On every identifier that is not negative the loop ends, with at least one digit and
  every digit in range.\<close>

lemma toDigits_loop_nonneg:
  assumes n: "2 \<le> n"
  shows "0 \<le> i \<Longrightarrow>
    \<exists>ds. toDigits_loop n i acc = Some (acc @ ds) \<and> ds \<noteq> [] \<and>
         (\<forall>d \<in> set ds. 0 \<le> d \<and> d < n)"
proof (induction "nat i" arbitrary: i acc rule: less_induct)
  case less
  have r: "i smod n = i mod n" using less.prems n by (simp add: smod_nonneg)
  have rng: "0 \<le> i mod n \<and> i mod n < n" using n by simp
  show ?case
  proof (cases "0 < floor_double i n")
    case True
    then have "i \<noteq> 0" by (auto simp: floor_double_zero)
    then have i1: "1 \<le> i" using less.prems by simp
    then have "floor_double i n < i" using n by (rule floor_double_less)
    then have "nat (floor_double i n) < nat i" using True by simp
    moreover have "0 \<le> floor_double i n" using True by simp
    ultimately obtain ds where
      ds: "toDigits_loop n (floor_double i n) (acc @ [i smod n]) = Some ((acc @ [i smod n]) @ ds)"
      "\<forall>d \<in> set ds. 0 \<le> d \<and> d < n"
      using less.hyps [of "floor_double i n" "acc @ [i smod n]"] by blast
    have "toDigits_loop n i acc = Some (acc @ (i mod n # ds))"
      using True ds(1) r by (subst toDigits_loop_step) simp
    then show ?thesis using ds(2) rng by (intro exI [of _ "i mod n # ds"]) simp
  next
    case False
    then have "toDigits_loop n i acc = Some (acc @ [i mod n])"
      using r by (subst toDigits_loop_step) simp
    then show ?thesis using rng by (intro exI [of _ "[i mod n]"]) simp
  qed
qed

text \<open>Up to \<open>2 ^ 53\<close> the quotients are exact, and the digits denote the identifier.\<close>

lemma toDigits_loop_value:
  assumes n: "2 \<le> length al"
  shows "0 \<le> i \<Longrightarrow> i \<le> 2 ^ 53 \<Longrightarrow> toDigits_loop (int (length al)) i acc = Some (acc @ ds) \<Longrightarrow>
    toDigitsToId al (rev ds) = i"
proof (induction "nat i" arbitrary: i acc ds rule: less_induct)
  case less
  define n where "n = int (length al)"
  have n2: "2 \<le> n" using n by (simp add: n_def)
  have r: "i smod n = i mod n" using less.prems n2 by (simp add: smod_nonneg)
  have q: "floor_double i n = i div n"
    using less.prems(1,2) n2 by (intro floor_double_exact) simp_all
  note loop = less.prems(3) [folded n_def]
  show ?case
  proof (cases "0 < i div n")
    case True
    have q0: "0 \<le> i div n" using True by simp
    have "0 < i" using True less.prems by (cases "i = 0") simp_all
    then have lt: "i div n < i" using n2 by (simp add: int_div_less_self)
    then have "nat (i div n) < nat i" using q0 by simp
    moreover have "i div n \<le> 2 ^ 53" using lt less.prems(2) by simp
    moreover from toDigits_loop_nonneg [OF n2 q0, of "acc @ [i smod n]"] obtain es where
      es: "toDigits_loop n (i div n) (acc @ [i smod n]) = Some ((acc @ [i smod n]) @ es)"
      by blast
    ultimately have v: "toDigitsToId al (rev es) = i div n"
      using less.hyps [of "i div n" "acc @ [i smod n]" es] q0 by (simp add: n_def)
    have "toDigits_loop n i acc = Some (acc @ (i mod n # es))"
      using True es q r by (subst toDigits_loop_step) simp
    with loop have "ds = i mod n # es" by simp
    then show ?thesis using v by (simp add: toDigitsToId_snoc n_def [symmetric])
  next
    case False
    moreover have "0 \<le> i div n" using less.prems n2 by (simp add: pos_imp_zdiv_nonneg_iff)
    ultimately have small: "i div n = 0" by simp
    have "i mod n = i" using div_mult_mod_eq [of i n] small by simp
    moreover have "toDigits_loop n i acc = Some (acc @ [i mod n])"
      using False q r by (subst toDigits_loop_step) simp
    with loop have "ds = [i mod n]" by simp
    ultimately show ?thesis by simp
  qed
qed

lemma toDigits_loop_neg:
  assumes "1 \<le> n" "i < 0"
  shows "toDigits_loop n i acc = Some (acc @ [i smod n])"
proof -
  have "floor_double i n \<le> 0" using assms by (intro floor_double_neg) simp_all
  then show ?thesis by (subst toDigits_loop_step) simp
qed

lemma toDigits_nonneg:
  assumes "2 \<le> length al" "0 \<le> i"
  shows "\<exists>ds. toDigits al i = Some ds \<and> ds \<noteq> [] \<and>
           (\<forall>d \<in> set ds. 0 \<le> d \<and> d < int (length al))"
proof -
  have "2 \<le> int (length al)" using assms(1) by simp
  from toDigits_loop_nonneg [OF this assms(2), of "[]"]
  obtain ds where ds: "toDigits_loop (int (length al)) i [] = Some ds" "ds \<noteq> []"
    "\<forall>d \<in> set ds. 0 \<le> d \<and> d < int (length al)"
    by auto
  then have "toDigits al i = Some (rev ds)" by (simp add: toDigits_def)
  then show ?thesis using ds by (intro exI [of _ "rev ds"]) simp
qed

lemma toDigits_value:
  assumes "2 \<le> length al" "0 \<le> i" "i \<le> 2 ^ 53" "toDigits al i = Some ds"
  shows "toDigitsToId al ds = i"
proof -
  from assms(4) obtain es where es: "toDigits_loop (int (length al)) i [] = Some es" "ds = rev es"
    by (auto simp: toDigits_def)
  from toDigits_loop_value [OF assms(1-3), of "[]" es] es(1) have "toDigitsToId al (rev es) = i"
    by simp
  then show ?thesis using es(2) by simp
qed

lemma toDigits_neg:
  assumes "1 \<le> length al" "i < 0"
  shows "toDigits al i = Some [i smod int (length al)]"
  using assms by (simp add: toDigits_def toDigits_loop_neg)

lemma toDigits_inj:
  assumes al: "2 \<le> length al" and i: "0 \<le> i" "i \<le> 2 ^ 53" and j: "0 \<le> j" "j \<le> 2 ^ 53"
    and eq: "toDigits al i = toDigits al j"
  shows "i = j"
proof -
  from toDigits_nonneg [OF al i(1)] obtain ds where ds: "toDigits al i = Some ds" by blast
  then have es: "toDigits al j = Some ds" using eq by simp
  have "toDigitsToId al ds = i" using al i ds by (rule toDigits_value)
  moreover have "toDigitsToId al ds = j" using al j es by (rule toDigits_value)
  ultimately show ?thesis by simp
qed

subsection \<open>The operations of the closure\<close>

lemma getPath_four:
  assumes "CHR ''/'' \<notin> set a" "CHR ''/'' \<notin> set b" "CHR ''/'' \<notin> set c" "CHR ''/'' \<notin> set d"
  shows "getPath (a @ ''/'' @ b @ ''/'' @ c @ ''/'' @ d) = Some d"
proof -
  have "split CHR ''/'' (a @ ''/'' @ b @ ''/'' @ c @ ''/'' @ d) = [a, b, c, d]"
    using assms by (simp add: split_append_sep split_no_sep)
  then show ?thesis by (simp add: getPath_def at_index_def)
qed

lemma getPath_more:
  assumes "CHR ''/'' \<notin> set a" "CHR ''/'' \<notin> set b" "CHR ''/'' \<notin> set c" "CHR ''/'' \<notin> set d"
  shows "getPath (a @ ''/'' @ b @ ''/'' @ c @ ''/'' @ d @ ''/'' @ rest) = Some d"
proof -
  have "split CHR ''/'' (a @ ''/'' @ b @ ''/'' @ c @ ''/'' @ d @ ''/'' @ rest)
        = a # b # c # d # split CHR ''/'' rest"
    using assms by (simp add: split_append_sep)
  then show ?thesis by (simp add: getPath_def at_index_def)
qed

lemma shorten_eq:
  assumes "toDigits (alphabet s) (ids s) = Some ds"
  shows "shorten s u =
    Some (protocol s @ encodeDigits (alphabet s) ds,
          s\<lparr>ids := round_double (ids s + 1), urlmap := (urlmap s)(property_key ds \<mapsto> u)\<rparr>)"
  using assms by (simp add: shorten_def nextid_def)

lemma shorten_returns:
  assumes "shorten s u = Some (short, s')"
  shows "\<exists>ds. toDigits (alphabet s) (ids s) = Some ds \<and>
     short = protocol s @ encodeDigits (alphabet s) ds \<and>
     s' = s\<lparr>ids := round_double (ids s + 1), urlmap := (urlmap s)(property_key ds \<mapsto> u)\<rparr>"
  using assms by (auto simp: shorten_def nextid_def split: option.splits)

lemma expand_state: "snd (expand s x) = s"
  by (simp add: expand_def split: option.splits)

lemma expand_path:
  "getPath x = Some path \<Longrightarrow>
   expand s x = (Inr (urlmap s (property_key (decodeCode (alphabet s) path))), s)"
  by (simp add: expand_def)

text \<open>What a run of calls can change: the counter, which stays non-negative, and the
  properties named by the digits of identifiers that \<^verbatim>\<open>shorten\<close> was given, each with
  its short URL among the replies.\<close>

lemma run_frame:
  assumes al: "2 \<le> length al"
  shows "alphabet s = al \<Longrightarrow> 0 \<le> ids s \<Longrightarrow> run s cs = Some (rs, s') \<Longrightarrow>
     alphabet s' = al \<and> protocol s' = protocol s \<and> 0 \<le> ids s' \<and>
     (\<forall>k. urlmap s' k \<noteq> urlmap s k \<longrightarrow>
        (\<exists>n ds. 0 \<le> n \<and> toDigits al n = Some ds \<and> k = property_key ds \<and>
           Shortened (protocol s @ encodeDigits al ds) \<in> set rs))"
proof (induction cs arbitrary: s rs)
  case Nil
  then show ?case by simp
next
  case (Cons c cs)
  show ?case
  proof (cases c)
    case (Shorten u)
    from Cons.prems(3) Shorten obtain short s1 rs1 where
      sh: "shorten s u = Some (short, s1)" and r1: "run s1 cs = Some (rs1, s')"
      and rs: "rs = Shortened short # rs1"
      by (auto split: option.splits prod.splits)
    from shorten_returns [OF sh] Cons.prems(1) obtain ds where
      ds: "toDigits al (ids s) = Some ds" "short = protocol s @ encodeDigits al ds"
      "s1 = s\<lparr>ids := round_double (ids s + 1), urlmap := (urlmap s)(property_key ds \<mapsto> u)\<rparr>"
      by auto
    have "0 \<le> round_double (ids s + 1)" using Cons.prems(2) by (intro round_double_nonneg) simp
    then have s1: "alphabet s1 = al" "0 \<le> ids s1" "protocol s1 = protocol s"
      using ds(3) Cons.prems by simp_all
    note IH = Cons.IH [OF s1(1) s1(2) r1]
    have frame: "\<exists>n ds. 0 \<le> n \<and> toDigits al n = Some ds \<and>
           k = property_key ds \<and> Shortened (protocol s @ encodeDigits al ds) \<in> set rs"
      if k: "urlmap s' k \<noteq> urlmap s k" for k
    proof (cases "urlmap s' k = urlmap s1 k")
      case True
      with k have "k = property_key ds" using ds(3) by (auto split: if_splits)
      then show ?thesis using ds(1,2) rs Cons.prems(2)
        by (intro exI [of _ "ids s"] exI [of _ ds]) simp
    next
      case False
      with IH obtain n es where "0 \<le> n" "toDigits al n = Some es"
        "k = property_key es" "Shortened (protocol s1 @ encodeDigits al es) \<in> set rs1"
        by blast
      then show ?thesis using s1 rs by (intro exI [of _ n] exI [of _ es]) simp
    qed
    show ?thesis using IH s1 frame by simp
  next
    case (Expand x)
    from Cons.prems(3) Expand obtain r rs1 where
      r1: "run s cs = Some (rs1, s')" and rs: "rs = Expanded r # rs1"
      using expand_state [of s x]
      by (auto split: option.splits prod.splits)
    from Cons.IH [OF Cons.prems(1,2) r1] show ?thesis using rs by auto
  qed
qed

text \<open>From a counter of at most \<open>2 ^ 53\<close> the counter grows and stays at most \<open>2 ^ 53\<close>,
  and the properties changed are named by identifiers from the counter on.\<close>

lemma run_frame_safe:
  assumes al: "2 \<le> length al"
  shows "alphabet s = al \<Longrightarrow> 0 \<le> ids s \<Longrightarrow> ids s \<le> 2 ^ 53 \<Longrightarrow>
     run s cs = Some (rs, s') \<Longrightarrow>
     ids s \<le> ids s' \<and> ids s' \<le> 2 ^ 53 \<and>
     (\<forall>k. urlmap s' k \<noteq> urlmap s k \<longrightarrow>
        (\<exists>n ds. ids s \<le> n \<and> n \<le> 2 ^ 53 \<and> toDigits al n = Some ds \<and>
           k = property_key ds))"
proof (induction cs arbitrary: s rs)
  case Nil
  then show ?case by simp
next
  case (Cons c cs)
  show ?case
  proof (cases c)
    case (Shorten u)
    from Cons.prems(4) Shorten obtain short s1 rs1 where
      sh: "shorten s u = Some (short, s1)" and r1: "run s1 cs = Some (rs1, s')"
      by (auto split: option.splits prod.splits)
    from shorten_returns [OF sh] Cons.prems(1) obtain ds where
      ds: "toDigits al (ids s) = Some ds"
      "s1 = s\<lparr>ids := round_double (ids s + 1), urlmap := (urlmap s)(property_key ds \<mapsto> u)\<rparr>"
      by auto
    have next_id: "ids s \<le> round_double (ids s + 1) \<and> round_double (ids s + 1) \<le> 2 ^ 53"
    proof (cases "ids s = 2 ^ 53")
      case True
      then show ?thesis using round_double_stalls by simp
    next
      case False
      then have "round_double (ids s + 1) = ids s + 1"
        using Cons.prems(2,3) by (intro round_double_exact) simp_all
      then show ?thesis using False Cons.prems(3) by simp
    qed
    then have s1: "alphabet s1 = al" "0 \<le> ids s1" "ids s1 \<le> 2 ^ 53" "ids s \<le> ids s1"
      using ds(2) Cons.prems by simp_all
    note IH = Cons.IH [OF s1(1-3) r1]
    have frame: "\<exists>n ds. ids s \<le> n \<and> n \<le> 2 ^ 53 \<and> toDigits al n = Some ds \<and>
           k = property_key ds"
      if k: "urlmap s' k \<noteq> urlmap s k" for k
    proof (cases "urlmap s' k = urlmap s1 k")
      case True
      with k have "k = property_key ds" using ds(2) by (auto split: if_splits)
      then show ?thesis using ds(1) Cons.prems(3)
        by (intro exI [of _ "ids s"] exI [of _ ds]) simp
    next
      case False
      with IH obtain n es where "ids s1 \<le> n" "n \<le> 2 ^ 53" "toDigits al n = Some es"
        "k = property_key es"
        by blast
      then show ?thesis using s1(4) by (intro exI [of _ n] exI [of _ es]) simp
    qed
    show ?thesis using IH s1 frame by simp
  next
    case (Expand x)
    from Cons.prems(4) Expand obtain r rs1 where
      r1: "run s cs = Some (rs1, s')"
      using expand_state [of s x]
      by (auto split: option.splits prod.splits)
    from Cons.IH [OF Cons.prems(1-3) r1] show ?thesis .
  qed
qed

text \<open>A counter that has reached \<open>2 ^ 53\<close> never comes back below it.\<close>

lemma run_threshold:
  "run s cs = Some (rs, s') \<Longrightarrow> 2 ^ 53 \<le> ids s \<Longrightarrow> 2 ^ 53 \<le> ids s'"
proof (induction cs arbitrary: s rs)
  case Nil
  then show ?case by simp
next
  case (Cons c cs)
  show ?case
  proof (cases c)
    case (Shorten u)
    from Cons.prems(1) Shorten obtain short s1 rs1 where
      sh: "shorten s u = Some (short, s1)" and r1: "run s1 cs = Some (rs1, s')"
      by (auto split: option.splits prod.splits)
    from shorten_returns [OF sh] have "ids s1 = round_double (ids s + 1)" by auto
    moreover have "2 ^ 53 \<le> round_double (ids s + 1)"
      using Cons.prems(2) by (intro round_double_large) simp
    ultimately have "2 ^ 53 \<le> ids s1" by simp
    with r1 show ?thesis by (rule Cons.IH)
  next
    case (Expand x)
    from Cons.prems(1) Expand obtain rs1 where r1: "run s cs = Some (rs1, s')"
      using expand_state [of s x] by (auto split: option.splits prod.splits)
    from r1 Cons.prems(2) show ?thesis by (rule Cons.IH)
  qed
qed

subsection \<open>Preservation of the invariant\<close>

lemma key_distinct:
  assumes "2 \<le> length al" "0 \<le> m" "m \<le> 2 ^ 53" "0 \<le> n" "n \<le> 2 ^ 53"
    and "toDigits al m = Some ds" "toDigits al n = Some es"
    and "property_key ds = property_key es"
  shows "m = n"
proof -
  have "ds = es" using assms(8) by (rule property_key_inj)
  then have "toDigits al m = toDigits al n" using assms(6,7) by simp
  with assms(1-5) show ?thesis by (rule toDigits_inj)
qed

lemma registry_inv_shortener:
  "2 \<le> length al \<Longrightarrow> 0 \<le> start \<Longrightarrow> start \<le> 2 ^ 53 \<Longrightarrow>
   registry_inv (shortener al proto start)"
  by (simp add: registry_inv_def shortener_def)

lemma registry_inv_shorten:
  assumes inv: "registry_inv s" and safe: "ids s < 2 ^ 53"
  shows "\<exists>ds. toDigits (alphabet s) (ids s) = Some ds \<and>
     property_key ds \<notin> dom (urlmap s) \<and>
     shorten s u = Some (protocol s @ encodeDigits (alphabet s) ds,
          s\<lparr>ids := ids s + 1, urlmap := (urlmap s)(property_key ds \<mapsto> u)\<rparr>) \<and>
     registry_inv (s\<lparr>ids := ids s + 1, urlmap := (urlmap s)(property_key ds \<mapsto> u)\<rparr>)"
proof -
  from inv have al: "2 \<le> length (alphabet s)" and i: "0 \<le> ids s"
    and keys: "\<And>k. k \<in> dom (urlmap s) \<Longrightarrow>
        \<exists>n ds. 0 \<le> n \<and> n < ids s \<and> toDigits (alphabet s) n = Some ds \<and> k = property_key ds"
    by (auto simp: registry_inv_def)
  have i53: "ids s \<le> 2 ^ 53" using safe by simp
  from toDigits_nonneg [OF al i] obtain ds where ds: "toDigits (alphabet s) (ids s) = Some ds"
    by blast
  have fresh: "property_key ds \<notin> dom (urlmap s)"
  proof
    assume "property_key ds \<in> dom (urlmap s)"
    from keys [OF this] obtain n es where n: "0 \<le> n" "n < ids s"
      "toDigits (alphabet s) n = Some es" "property_key ds = property_key es" by blast
    have "n \<le> 2 ^ 53" using n(2) i53 by simp
    from key_distinct [OF al i i53 n(1) this ds n(3,4)] n(2) show False by simp
  qed
  have step: "round_double (ids s + 1) = ids s + 1"
    using i safe by (intro round_double_exact) simp_all
  let ?s' = "s\<lparr>ids := ids s + 1, urlmap := (urlmap s)(property_key ds \<mapsto> u)\<rparr>"
  have "registry_inv ?s'"
    unfolding registry_inv_def
  proof (intro conjI ballI)
    show "2 \<le> length (alphabet ?s')" using al by simp
    show "0 \<le> ids ?s'" using i by simp
    show "ids ?s' \<le> 2 ^ 53" using safe by simp
    fix k assume k: "k \<in> dom (urlmap ?s')"
    show "\<exists>n es. 0 \<le> n \<and> n < ids ?s' \<and> toDigits (alphabet ?s') n = Some es \<and>
               k = property_key es"
    proof (cases "k = property_key ds")
      case True
      then show ?thesis using ds i by (intro exI [of _ "ids s"] exI [of _ ds]) simp
    next
      case False
      with k have "k \<in> dom (urlmap s)" by auto
      from keys [OF this] obtain n es where "0 \<le> n" "n < ids s"
        "toDigits (alphabet s) n = Some es" "k = property_key es" by blast
      then show ?thesis by (intro exI [of _ n] exI [of _ es]) simp
    qed
  qed
  then show ?thesis using ds fresh shorten_eq [OF ds, of u] step by auto
qed

lemma registry_inv_run:
  "registry_inv s \<Longrightarrow> run s cs = Some (rs, s') \<Longrightarrow> ids s' < 2 ^ 53 \<Longrightarrow>
   registry_inv s' \<and> urlmap s \<subseteq>\<^sub>m urlmap s' \<and> ids s \<le> ids s'"
proof (induction cs arbitrary: s rs)
  case Nil
  then show ?case by simp
next
  case (Cons c cs)
  show ?case
  proof (cases c)
    case (Shorten u)
    have safe: "ids s < 2 ^ 53"
    proof (rule ccontr)
      assume "\<not> ids s < 2 ^ 53"
      then have "2 ^ 53 \<le> ids s" by simp
      with Cons.prems(2) have "2 ^ 53 \<le> ids s'" by (rule run_threshold)
      then show False using Cons.prems(3) by simp
    qed
    from registry_inv_shorten [OF Cons.prems(1) safe, of u] obtain ds where
      fresh: "property_key ds \<notin> dom (urlmap s)"
      and sh: "shorten s u = Some (protocol s @ encodeDigits (alphabet s) ds,
          s\<lparr>ids := ids s + 1, urlmap := (urlmap s)(property_key ds \<mapsto> u)\<rparr>)"
      and inv: "registry_inv (s\<lparr>ids := ids s + 1, urlmap := (urlmap s)(property_key ds \<mapsto> u)\<rparr>)"
      by blast
    let ?s1 = "s\<lparr>ids := ids s + 1, urlmap := (urlmap s)(property_key ds \<mapsto> u)\<rparr>"
    from Cons.prems(2) Shorten sh obtain rs1 where r1: "run ?s1 cs = Some (rs1, s')"
      by (auto split: option.splits)
    have u1: "urlmap ?s1 = (urlmap s)(property_key ds \<mapsto> u)" and i1: "ids ?s1 = ids s + 1"
      by simp_all
    from Cons.IH [OF inv r1 Cons.prems(3)] have inv': "registry_inv s'"
      and "urlmap ?s1 \<subseteq>\<^sub>m urlmap s'" and "ids ?s1 \<le> ids s'"
      by blast+
    then have le: "(urlmap s)(property_key ds \<mapsto> u) \<subseteq>\<^sub>m urlmap s'"
      and ile: "ids s \<le> ids s'"
      by (simp_all only: u1 i1)
    have "urlmap s \<subseteq>\<^sub>m (urlmap s)(property_key ds \<mapsto> u)"
      using fresh by (auto simp: map_le_def)
    then have "urlmap s \<subseteq>\<^sub>m urlmap s'" using le by (rule map_le_trans)
    then show ?thesis using inv' ile by simp
  next
    case (Expand x)
    from Cons.prems(2) Expand obtain rs1 where r1: "run s cs = Some (rs1, s')"
      using expand_state [of s x] by (auto split: option.splits prod.splits)
    from Cons.IH [OF Cons.prems(1) r1 Cons.prems(3)] show ?thesis .
  qed
qed

subsection \<open>Reachable closures\<close>

lemma encodeDigits_inj:
  assumes "distinct al"
    and "\<forall>d \<in> set ds. 0 \<le> d \<and> d < int (length al)"
    and "\<forall>d \<in> set es. 0 \<le> d \<and> d < int (length al)"
    and "encodeDigits al ds = encodeDigits al es"
  shows "ds = es"
proof -
  have "ds = decodeCode al (encodeDigits al ds)"
    using decodeCode_encodeDigits [OF assms(1,2)] by simp
  also have "\<dots> = decodeCode al (encodeDigits al es)" by (simp only: assms(4))
  also have "\<dots> = es" using assms(1,3) by (rule decodeCode_encodeDigits)
  finally show ?thesis .
qed

lemma getPath_short:
  assumes "CHR ''/'' \<notin> set a \<union> set b \<union> set c" and "CHR ''/'' \<notin> set code"
  shows "getPath ((a @ ''/'' @ b @ ''/'' @ c @ ''/'') @ code) = Some code"
  using assms getPath_four [of a b c code] by simp

lemma reachable_inv:
  assumes "2 \<le> length al" "0 \<le> start"
    and "run (shortener al proto start) calls = Some (replies, s)"
    and "ids s < 2 ^ 53"
  shows "registry_inv s \<and> alphabet s = al \<and> protocol s = proto"
proof -
  let ?s0 = "shortener al proto start"
  have s0: "alphabet ?s0 = al" "0 \<le> ids ?s0" "protocol ?s0 = proto" "ids ?s0 = start"
    using assms(2) by (simp_all add: shortener_def)
  have "start \<le> 2 ^ 53"
  proof (rule ccontr)
    assume "\<not> start \<le> 2 ^ 53"
    then have "2 ^ 53 \<le> ids ?s0" using s0(4) by simp
    with assms(3) have "2 ^ 53 \<le> ids s" by (rule run_threshold)
    then show False using assms(4) by simp
  qed
  with assms(1,2) have "registry_inv ?s0" by (rule registry_inv_shortener)
  then have "registry_inv s" using assms(3,4) registry_inv_run by blast
  moreover from run_frame [OF assms(1) s0(1,2) assms(3)] have "alphabet s = al"
    "protocol s = proto"
    using s0(3) by simp_all
  ultimately show ?thesis by simp
qed

subsection \<open>Evaluation on concrete inputs\<close>

lemmas number_simps =
  round_double_def floor_double_def fraction_bits_def significand_def round_half_even_def
  bit_length.simps

lemmas digit_simps =
  toDigits_def toDigits_loop_step signed_modulo_int_def number_simps Let_def

lemmas session_simps =
  shortly_def shortener_def setup_alphabet_def setup_protocol_def startID_def
  shorten_def nextid_def charAt_def expand_def getPath_def at_index_def property_key_def
  show_int_def show_nat.simps digit_char_def Let_def

lemma setup_digits:
  "toDigits setup_alphabet 0 = Some [0]"
  "toDigits setup_alphabet 20 = Some [20]"
  "toDigits setup_alphabet 62 = Some [1, 0]"
  "toDigits setup_alphabet 4097 = Some [1, 4, 5]"
  "toDigits setup_alphabet 4098 = Some [1, 4, 6]"
  "toDigits setup_alphabet 9007199254740992 = Some [41, 15, 42, 49, 13, 59, 28, 40, 8]"
  "toDigits setup_alphabet 4611686018427387904 =
     Some [5, 30, 41, 35, 24, 31, 17, 2, 35, 22, 4]"
  by (simp_all add: setup_alphabet_def digit_simps)

lemma small_digits: "toDigits ''ab/'' 2 = Some [2]"
  by (simp add: digit_simps)

lemma counter_steps:
  "round_double 3 = 3"
  "round_double 21 = 21"
  "round_double 4098 = 4098"
  "round_double 4099 = 4099"
  "round_double 9007199254740993 = 9007199254740992"
  by (simp_all add: number_simps)

lemmas eval_simps =
  session_simps setup_digits [unfolded setup_alphabet_def, simplified] small_digits
  counter_steps

section \<open>The claims of the specification\<close>

subsection \<open>The codec and the path\<close>

text \<open>
  Claim C2, as stated, fails: the quotient \<^verbatim>\<open>id / radix\<close> is rounded to a double. The
  digits that \<^verbatim>\<open>toDigits\<close> returns for \<open>2 ^ 62\<close> with the alphabet of 62 characters end
  in 22, 4 and denote \<open>2 ^ 62 - 124\<close>.
\<close>

theorem toDigits_roundtrip_counterexample:
  "toDigits setup_alphabet 4611686018427387904 =
     Some [5, 30, 41, 35, 24, 31, 17, 2, 35, 22, 4] \<and>
   toDigitsToId setup_alphabet [5, 30, 41, 35, 24, 31, 17, 2, 35, 22, 4] =
     4611686018427387780"
  by (simp add: eval_simps)

text \<open>
  Claim C2, amended. For an alphabet of at least two characters and every identifier from 0
  and below \<open>2 ^ 53\<close>, \<^verbatim>\<open>toDigits\<close> returns at least one digit, every digit is at least 0
  and less than \<open>radix\<close>, and the value of the digits in positional notation in base
  \<open>radix\<close> is the identifier again.
\<close>

theorem toDigits_roundtrip:
  assumes "2 \<le> length al" and "0 \<le> idn" and "idn < 2 ^ 53"
  shows "\<exists>ds. toDigits al idn = Some ds \<and> ds \<noteq> [] \<and>
           (\<forall>d \<in> set ds. 0 \<le> d \<and> d < int (length al)) \<and>
           toDigitsToId al ds = idn"
proof -
  from toDigits_nonneg [OF assms(1,2)] obtain ds where
    ds: "toDigits al idn = Some ds" "ds \<noteq> []"
    "\<forall>d \<in> set ds. 0 \<le> d \<and> d < int (length al)"
    by blast
  have "idn \<le> 2 ^ 53" using assms(3) by simp
  with assms(1,2) have "toDigitsToId al ds = idn" using ds(1) by (rule toDigits_value)
  with ds show ?thesis by blast
qed

theorem toDigits_roundtrip_witness:
  "2 \<le> length setup_alphabet \<and> (0::int) \<le> 4097 \<and> (4097::int) < 2 ^ 53 \<and>
   toDigits setup_alphabet 4097 = Some [1, 4, 5] \<and>
   toDigitsToId setup_alphabet [1, 4, 5] = 4097"
proof -
  have a: "2 \<le> length setup_alphabet" by (simp add: setup_alphabet_def)
  have b: "(0::int) \<le> 4097" by simp
  have c: "(4097::int) < 2 ^ 53" by simp
  have d: "toDigits setup_alphabet 4097 = Some [1, 4, 5]" by (simp add: eval_simps)
  from toDigits_roundtrip [OF a b c] d
  have "toDigitsToId setup_alphabet [1, 4, 5] = 4097" by simp
  with a b c d show ?thesis by (intro conjI)
qed

text \<open>
  Claim C3. For an alphabet of at least two characters, all different, and every identifier
  that is not negative: the characters that the loop of \<^verbatim>\<open>shorten\<close> writes for the digits
  of the identifier are mapped back to exactly these digits by the loop of \<^verbatim>\<open>expand\<close>.
\<close>

theorem decode_encode_toDigits:
  assumes "2 \<le> length al" and "distinct al" and "0 \<le> idn"
  shows "\<exists>ds. toDigits al idn = Some ds \<and> decodeCode al (encodeDigits al ds) = ds"
proof -
  from toDigits_nonneg [OF assms(1,3)] obtain ds where
    ds: "toDigits al idn = Some ds" "\<forall>d \<in> set ds. 0 \<le> d \<and> d < int (length al)"
    by blast
  from decodeCode_encodeDigits [OF assms(2) ds(2)] ds(1) show ?thesis by simp
qed

theorem decode_encode_toDigits_witness:
  "2 \<le> length setup_alphabet \<and> distinct setup_alphabet \<and> (0::int) \<le> 4097 \<and>
   (\<exists>ds. toDigits setup_alphabet 4097 = Some ds \<and>
         decodeCode setup_alphabet (encodeDigits setup_alphabet ds) = ds)"
proof -
  have a: "2 \<le> length setup_alphabet" by (simp add: setup_alphabet_def)
  have b: "distinct setup_alphabet" by (simp add: setup_alphabet_def)
  have c: "(0::int) \<le> 4097" by simp
  show ?thesis using a b c decode_encode_toDigits [OF a b c] by simp
qed

text \<open>
  Claim C4. With the alphabet, the protocol and the starting identifier 4097 of the setup
  code, the first call of \<^verbatim>\<open>shorten\<close> returns \<^verbatim>\<open>http://short.ly/bef\<close> and the second, of
  another long URL, returns \<^verbatim>\<open>http://short.ly/beg\<close>.
\<close>

theorem shorten_setup_scenario:
  "map_option fst
     (run (shortener setup_alphabet setup_protocol startID)
        [Shorten ''http://www.google.com'', Shorten ''https://www.cics.umass.edu''])
   = Some [Shortened ''http://short.ly/bef'', Shortened ''http://short.ly/beg'']"
  by (simp add: eval_simps)

text \<open>
  Claim C5. For an alphabet of at least two characters, \<^verbatim>\<open>toDigits(0)\<close> is \<open>[0]\<close>,
  \<^verbatim>\<open>toDigits(radix)\<close> is \<open>[1, 0]\<close>, and no result of \<^verbatim>\<open>toDigits\<close> is the empty array:
  the body of the loop runs before its test.
\<close>

theorem toDigits_zero_radix:
  assumes "2 \<le> length al"
  shows "toDigits al 0 = Some [0] \<and> toDigits al (int (length al)) = Some [1, 0] \<and>
         (\<forall>idn ds. toDigits al idn = Some ds \<longrightarrow> ds \<noteq> [])"
proof -
  define n where "n = int (length al)"
  have n: "2 \<le> n" using assms by (simp add: n_def)
  have z: "toDigits_loop n 0 [] = Some [0]"
    by (subst toDigits_loop_step) (simp add: floor_double_zero)
  have "floor_double n n = 1" using n by (intro floor_double_self) simp
  moreover have "floor_double 1 n = 1 div n" using n by (intro floor_double_exact) simp_all
  moreover have "n smod n = 0" "1 div n = 0" "1 smod n = 1"
    using n by (simp_all add: signed_modulo_int_def)
  ultimately have r: "toDigits_loop n n [] = Some [0, 1]"
    by (simp add: toDigits_loop_step [of n n] toDigits_loop_step [of n 1])
  have ne: "ds \<noteq> []" if "toDigits al idn = Some ds" for idn ds
  proof (cases "0 \<le> idn")
    case True
    from toDigits_nonneg [OF assms True] that show ?thesis by auto
  next
    case False
    then have "toDigits al idn = Some [idn smod int (length al)]"
      using assms by (intro toDigits_neg) simp_all
    with that show ?thesis by auto
  qed
  show ?thesis using z r ne by (simp add: toDigits_def n_def [symmetric])
qed

theorem toDigits_zero_radix_witness:
  "2 \<le> length setup_alphabet \<and>
   toDigits setup_alphabet 0 = Some [0] \<and> toDigits setup_alphabet 62 = Some [1, 0] \<and>
   toDigits setup_alphabet 4097 = Some [1, 4, 5] \<and> [1, 4, 5] \<noteq> ([] :: int list)"
proof -
  have a: "2 \<le> length setup_alphabet" by (simp add: setup_alphabet_def)
  have l: "int (length setup_alphabet) = 62" by (simp add: setup_alphabet_def)
  have d: "toDigits setup_alphabet 4097 = Some [1, 4, 5]" by (simp add: eval_simps)
  show ?thesis using a d toDigits_zero_radix [OF a] by (simp add: l)
qed

text \<open>
  Claim C10. For an alphabet of at least two characters \<^verbatim>\<open>toDigits\<close> returns on every
  integer. On a negative identifier the quotient \<^verbatim>\<open>Math.floor(id / radix)\<close> is not
  positive, as computed on doubles and as an exact quotient, so the loop stops after its
  first pass, and the result is the one-element array holding \<^verbatim>\<open>id % radix\<close>, the
  remainder with the sign of the identifier.
\<close>

theorem toDigits_terminates:
  assumes "2 \<le> length al"
  shows "(\<exists>ds. toDigits al idn = Some ds) \<and>
         (idn < 0 \<longrightarrow>
            idn div int (length al) \<le> 0 \<and>
            floor_double idn (int (length al)) \<le> 0 \<and>
            toDigits_loop (int (length al)) idn [] = Some [idn smod int (length al)] \<and>
            toDigits al idn = Some [idn smod int (length al)] \<and>
            idn smod int (length al) = - ((- idn) mod int (length al)))"
proof (cases "0 \<le> idn")
  case True
  from toDigits_nonneg [OF assms True] show ?thesis using True by auto
next
  case False
  then have neg: "idn < 0" by simp
  have n: "1 \<le> int (length al)" "1 \<le> length al" using assms by simp_all
  have pos: "0 < int (length al)" using n(1) by linarith
  then have "idn div int (length al) < 0" using neg by (simp only: pos_imp_zdiv_neg_iff)
  moreover have "floor_double idn (int (length al)) \<le> 0"
    using neg pos by (rule floor_double_neg)
  moreover have "toDigits_loop (int (length al)) idn [] = Some [idn smod int (length al)]"
    using toDigits_loop_neg [OF n(1) neg, of "[]"] by simp
  moreover have "toDigits al idn = Some [idn smod int (length al)]"
    using n(2) neg by (rule toDigits_neg)
  moreover have "idn smod int (length al) = - ((- idn) mod int (length al))"
    using neg by (simp add: signed_modulo_int_def sgn_if)
  ultimately show ?thesis by simp
qed

theorem toDigits_terminates_witness:
  "2 \<le> length setup_alphabet \<and> (- 7 :: int) < 0 \<and>
   toDigits setup_alphabet (- 7) = Some [- 7] \<and>
   toDigits_loop 62 (- 7) [] = Some [- 7]"
proof -
  have a: "2 \<le> length setup_alphabet" by (simp add: setup_alphabet_def)
  have l: "int (length setup_alphabet) = 62" by (simp add: setup_alphabet_def)
  show ?thesis using a toDigits_terminates [OF a, of "- 7"]
    by (simp add: l signed_modulo_int_def)
qed

text \<open>
  Claim C6. When the split of a URL on \<^verbatim>\<open>/\<close> has at least four fields, \<^verbatim>\<open>getPath\<close>
  returns the field of index 3. That field is the text between the third slash and the
  fourth, or the end of the URL when there are only three. In particular the path of
  \<^verbatim>\<open>http://short.ly/bef\<close> is \<^verbatim>\<open>bef\<close>.
\<close>

theorem getPath_fourth_field:
  "(4 \<le> length (split CHR ''/'' url) \<longrightarrow> getPath url = Some (split CHR ''/'' url ! 3)) \<and>
   (CHR ''/'' \<notin> set a \<union> set b \<union> set c \<union> set d \<longrightarrow>
      getPath (a @ ''/'' @ b @ ''/'' @ c @ ''/'' @ d) = Some d \<and>
      getPath (a @ ''/'' @ b @ ''/'' @ c @ ''/'' @ d @ ''/'' @ rest) = Some d) \<and>
   getPath ''http://short.ly/bef'' = Some ''bef''"
proof -
  have "getPath url = Some (split CHR ''/'' url ! 3)" if "4 \<le> length (split CHR ''/'' url)"
    using that by (simp add: getPath_def at_index_def)
  moreover have "getPath (a @ ''/'' @ b @ ''/'' @ c @ ''/'' @ d) = Some d \<and>
      getPath (a @ ''/'' @ b @ ''/'' @ c @ ''/'' @ d @ ''/'' @ rest) = Some d"
    if "CHR ''/'' \<notin> set a \<union> set b \<union> set c \<union> set d"
    using that getPath_four [of a b c d] getPath_more [of a b c d rest] by simp
  moreover have "getPath ''http://short.ly/bef'' = Some ''bef''"
    by (simp add: getPath_def at_index_def)
  ultimately show ?thesis by blast
qed

theorem getPath_fourth_field_witness:
  "4 \<le> length (split CHR ''/'' ''http://short.ly/bef/x'') \<and>
   getPath ''http://short.ly/bef/x'' = Some ''bef'' \<and>
   CHR ''/'' \<notin> set ''http:'' \<union> set '''' \<union> set ''short.ly'' \<union> set ''bef'' \<and>
   getPath (''http:'' @ ''/'' @ '''' @ ''/'' @ ''short.ly'' @ ''/'' @ ''bef'') = Some ''bef'' \<and>
   getPath (''http:'' @ ''/'' @ '''' @ ''/'' @ ''short.ly'' @ ''/'' @ ''bef'' @ ''/'' @ ''x'') = Some ''bef''"
  using getPath_fourth_field [of "''http://short.ly/bef/x''" "''http:''" "''''" "''short.ly''" "''bef''" "''x''"]
  by simp

subsection \<open>Sessions\<close>

text \<open>
  Claim C1, as stated, fails: \<^verbatim>\<open>getPath\<close> takes the field of index 3 whatever the
  protocol is. With the protocol \<^verbatim>\<open>http://short.ly/u/\<close> the short URL returned by
  \<^verbatim>\<open>shorten\<close> is \<^verbatim>\<open>http://short.ly/u/bef\<close>, whose field of index 3 is \<^verbatim>\<open>u\<close>, and
  \<^verbatim>\<open>expand\<close> returns \<^verbatim>\<open>undefined\<close>. With the alphabet \<^verbatim>\<open>ab/\<close> and the identifier 2
  the code is \<^verbatim>\<open>/\<close>, the field of index 3 is empty, and \<^verbatim>\<open>expand\<close> returns
  \<^verbatim>\<open>undefined\<close> again. And from the starting identifier \<open>2 ^ 53\<close> the counter does not
  advance: the second call of \<^verbatim>\<open>shorten\<close> is given the same identifier and replaces the
  long URL of the first, which \<^verbatim>\<open>expand\<close> then no longer returns.
\<close>

theorem expand_after_shorten_counterexample:
  "map_option fst
     (run (shortener setup_alphabet ''http://short.ly/u/'' startID)
        [Shorten ''http://www.google.com'', Expand ''http://short.ly/u/bef''])
   = Some [Shortened ''http://short.ly/u/bef'', Expanded (Inr None)] \<and>
   map_option fst
     (run (shortener ''ab/'' setup_protocol 2)
        [Shorten ''http://www.google.com'', Expand ''http://short.ly//''])
   = Some [Shortened ''http://short.ly//'', Expanded (Inr None)] \<and>
   map_option fst
     (run (shortener setup_alphabet setup_protocol 9007199254740992)
        [Shorten ''http://www.google.com'', Shorten ''https://www.cics.umass.edu'',
         Expand ''http://short.ly/PpQXn7COi''])
   = Some [Shortened ''http://short.ly/PpQXn7COi'', Shortened ''http://short.ly/PpQXn7COi'',
           Expanded (Inr (Some ''https://www.cics.umass.edu''))]"
  by (simp add: eval_simps)

text \<open>
  Claim C1, amended. Let the alphabet have at least two characters, all different and none
  of them a slash, let the protocol hold exactly three slashes, the last one at its end,
  and let the counter be at least 0 and below \<open>2 ^ 53\<close>. If \<^verbatim>\<open>shorten\<close> returns a short
  URL for a long URL, then \<^verbatim>\<open>expand\<close> of that short URL returns exactly that long URL,
  directly afterwards and after any further calls of the session.
\<close>

theorem expand_after_shorten:
  assumes al: "2 \<le> length (alphabet s)" "distinct (alphabet s)"
      "CHR ''/'' \<notin> set (alphabet s)"
    and i: "0 \<le> ids s" "ids s < 2 ^ 53"
    and proto: "protocol s = a @ ''/'' @ b @ ''/'' @ c @ ''/''"
      "CHR ''/'' \<notin> set a \<union> set b \<union> set c"
    and sh: "shorten s urll = Some (short, s1)"
    and later: "run s1 calls = Some (replies, s2)"
  shows "expand s2 short = (Inr (Some urll), s2)"
proof -
  have step: "round_double (ids s + 1) = ids s + 1"
    using i by (intro round_double_exact) simp_all
  from shorten_returns [OF sh] obtain ds where
    ds: "toDigits (alphabet s) (ids s) = Some ds"
    and short: "short = protocol s @ encodeDigits (alphabet s) ds"
    and s1: "s1 = s\<lparr>ids := ids s + 1, urlmap := (urlmap s)(property_key ds \<mapsto> urll)\<rparr>"
    unfolding step by blast
  from toDigits_nonneg [OF al(1) i(1)] ds have
    range: "\<forall>d \<in> set ds. 0 \<le> d \<and> d < int (length (alphabet s))"
    by auto
  have a1: "alphabet s1 = alphabet s" and i1: "0 \<le> ids s1" "ids s1 = ids s + 1"
      "ids s1 \<le> 2 ^ 53"
    and m1: "urlmap s1 (property_key ds) = Some urll"
    using s1 i by simp_all
  from run_frame [OF al(1) a1 i1(1) later] have a2: "alphabet s2 = alphabet s" by simp
  from run_frame_safe [OF al(1) a1 i1(1,3) later] have
    changed: "\<And>k. urlmap s2 k \<noteq> urlmap s1 k \<Longrightarrow>
      \<exists>n es. ids s1 \<le> n \<and> n \<le> 2 ^ 53 \<and> toDigits (alphabet s) n = Some es \<and>
        k = property_key es"
    by blast
  have kept: "urlmap s2 (property_key ds) = urlmap s1 (property_key ds)"
  proof (rule ccontr)
    assume "urlmap s2 (property_key ds) \<noteq> urlmap s1 (property_key ds)"
    from changed [OF this] obtain n es where n: "ids s1 \<le> n" "n \<le> 2 ^ 53"
      "toDigits (alphabet s) n = Some es" "property_key ds = property_key es"
      by blast
    have "0 \<le> n" using n(1) i1 by simp
    moreover have "ids s \<le> 2 ^ 53" using i(2) by simp
    ultimately have "ids s = n" using al(1) i(1) n(2) ds n(3,4) by (intro key_distinct)
    then show False using n(1) i1(2) by simp
  qed
  have "set (encodeDigits (alphabet s) ds) \<subseteq> set (alphabet s)" by (rule set_encodeDigits)
  then have "CHR ''/'' \<notin> set (encodeDigits (alphabet s) ds)" using al(3) by blast
  with proto(2) have "getPath short = Some (encodeDigits (alphabet s) ds)"
    unfolding short proto(1) by (rule getPath_short)
  then have "expand s2 short =
      (Inr (urlmap s2 (property_key
         (decodeCode (alphabet s2) (encodeDigits (alphabet s) ds)))), s2)"
    by (rule expand_path)
  moreover have "decodeCode (alphabet s2) (encodeDigits (alphabet s) ds) = ds"
    unfolding a2 using al(2) range by (rule decodeCode_encodeDigits)
  ultimately show ?thesis using kept m1 by simp
qed

theorem expand_after_shorten_witness:
  "2 \<le> length (alphabet shortly) \<and> distinct (alphabet shortly) \<and>
   CHR ''/'' \<notin> set (alphabet shortly) \<and> 0 \<le> ids shortly \<and> ids shortly < 2 ^ 53 \<and>
   protocol shortly = ''http:'' @ ''/'' @ '''' @ ''/'' @ ''short.ly'' @ ''/'' \<and>
   CHR ''/'' \<notin> set ''http:'' \<union> set '''' \<union> set ''short.ly'' \<and>
   shorten shortly ''http://www.google.com'' =
     Some (''http://short.ly/bef'',
       \<lparr>alphabet = setup_alphabet, protocol = setup_protocol, ids = 4098,
        urlmap = [''1,4,5'' \<mapsto> ''http://www.google.com'']\<rparr>) \<and>
   run \<lparr>alphabet = setup_alphabet, protocol = setup_protocol, ids = 4098,
        urlmap = [''1,4,5'' \<mapsto> ''http://www.google.com'']\<rparr>
     [Shorten ''https://www.cics.umass.edu''] =
     Some ([Shortened ''http://short.ly/beg''],
       \<lparr>alphabet = setup_alphabet, protocol = setup_protocol, ids = 4099,
        urlmap = [''1,4,5'' \<mapsto> ''http://www.google.com'',
                  ''1,4,6'' \<mapsto> ''https://www.cics.umass.edu'']\<rparr>) \<and>
   expand \<lparr>alphabet = setup_alphabet, protocol = setup_protocol, ids = 4099,
        urlmap = [''1,4,5'' \<mapsto> ''http://www.google.com'',
                  ''1,4,6'' \<mapsto> ''https://www.cics.umass.edu'']\<rparr>
     ''http://short.ly/bef'' =
     (Inr (Some ''http://www.google.com''),
      \<lparr>alphabet = setup_alphabet, protocol = setup_protocol, ids = 4099,
        urlmap = [''1,4,5'' \<mapsto> ''http://www.google.com'',
                  ''1,4,6'' \<mapsto> ''https://www.cics.umass.edu'']\<rparr>)"
proof -
  let ?s1 = "\<lparr>alphabet = setup_alphabet, protocol = setup_protocol, ids = 4098,
        urlmap = [''1,4,5'' \<mapsto> ''http://www.google.com'']\<rparr>"
  let ?s2 = "\<lparr>alphabet = setup_alphabet, protocol = setup_protocol, ids = 4099,
        urlmap = [''1,4,5'' \<mapsto> ''http://www.google.com'',
                  ''1,4,6'' \<mapsto> ''https://www.cics.umass.edu'']\<rparr>"
  have h1: "2 \<le> length (alphabet shortly)" by (simp add: eval_simps)
  have h2: "distinct (alphabet shortly)" by (simp add: eval_simps)
  have h3: "CHR ''/'' \<notin> set (alphabet shortly)" by (simp add: eval_simps)
  have h4: "0 \<le> ids shortly" by (simp add: eval_simps)
  have h4': "ids shortly < 2 ^ 53" by (simp add: eval_simps)
  have h5: "protocol shortly = ''http:'' @ ''/'' @ '''' @ ''/'' @ ''short.ly'' @ ''/''"
    by (simp add: eval_simps)
  have h6: "CHR ''/'' \<notin> set ''http:'' \<union> set '''' \<union> set ''short.ly''" by simp
  have h7: "shorten shortly ''http://www.google.com'' = Some (''http://short.ly/bef'', ?s1)"
    by (simp add: eval_simps)
  have h8: "run ?s1 [Shorten ''https://www.cics.umass.edu''] =
      Some ([Shortened ''http://short.ly/beg''], ?s2)"
    by (simp add: eval_simps)
  from expand_after_shorten [OF h1 h2 h3 h4 h4' h5 h6 h7 h8]
  have "expand ?s2 ''http://short.ly/bef'' = (Inr (Some ''http://www.google.com''), ?s2)" .
  with h1 h2 h3 h4 h4' h5 h6 h7 h8 show ?thesis by (intro conjI)
qed

text \<open>
  Claim C7, as stated, fails. A URL with fewer than four fields has an \<^verbatim>\<open>undefined\<close>
  path, and \<^verbatim>\<open>expand\<close> throws a \<^verbatim>\<open>TypeError\<close> on reading its length. And the code that
  \<^verbatim>\<open>expand\<close> looks up is the field of index 3, not what follows the protocol: with the
  protocol \<^verbatim>\<open>http://short.ly/u/\<close> and the starting identifier 20, whose code is
  \<^verbatim>\<open>u\<close>, the URL made of the protocol and the code \<^verbatim>\<open>zzz\<close>, which no call produced,
  expands to the long URL of the first call.
\<close>

theorem expand_unknown_code_counterexample:
  "expand shortly ''http://short.ly'' = (Inl TypeError, shortly) \<and>
   map_option fst
     (run (shortener setup_alphabet ''http://short.ly/u/'' 20)
        [Shorten ''http://www.google.com'', Expand ''http://short.ly/u/zzz''])
   = Some [Shortened ''http://short.ly/u/u'', Expanded (Inr (Some ''http://www.google.com''))]"
  by (simp add: eval_simps)

text \<open>
  Claim C7, amended. In a session started with an alphabet of at least two characters and
  a starting identifier that is not negative, let a URL have a field of index 3, its code.
  If no call of \<^verbatim>\<open>shorten\<close> in the session returned the protocol followed by this code,
  then \<^verbatim>\<open>expand\<close> returns \<^verbatim>\<open>undefined\<close>, without an exception, and leaves the closure
  as it was.
\<close>

theorem expand_unknown_code:
  assumes al: "2 \<le> length al" and start: "0 \<le> start"
    and r: "run (shortener al proto start) calls = Some (replies, s)"
    and path: "getPath urls = Some code"
    and unknown: "Shortened (proto @ code) \<notin> set replies"
  shows "expand s urls = (Inr None, s)"
proof -
  let ?s0 = "shortener al proto start"
  have s0: "alphabet ?s0 = al" "0 \<le> ids ?s0" "protocol ?s0 = proto" "ids ?s0 = start"
    "urlmap ?s0 = Map.empty"
    using start by (simp_all add: shortener_def)
  from run_frame [OF al s0(1,2) r] have a: "alphabet s = al"
    and changed: "\<And>k. urlmap s k \<noteq> urlmap ?s0 k \<Longrightarrow>
      \<exists>n ds. 0 \<le> n \<and> toDigits al n = Some ds \<and>
        k = property_key ds \<and> Shortened (protocol ?s0 @ encodeDigits al ds) \<in> set replies"
    by blast+
  let ?k = "property_key (decodeCode al code)"
  have "urlmap s ?k = None"
  proof (rule ccontr)
    assume "urlmap s ?k \<noteq> None"
    then have "urlmap s ?k \<noteq> urlmap ?s0 ?k" by (simp add: s0(5))
    from changed [OF this] obtain n ds where n: "0 \<le> n" "toDigits al n = Some ds"
      "?k = property_key ds" "Shortened (proto @ encodeDigits al ds) \<in> set replies"
      by (auto simp: s0)
    have eq: "decodeCode al code = ds" using n(3) by (rule property_key_inj)
    from toDigits_nonneg [OF al n(1)] n(2) have "\<forall>d \<in> set ds. 0 \<le> d" by auto
    then have "encodeDigits al (decodeCode al code) = code"
      unfolding eq [symmetric] by (rule encodeDigits_decodeCode)
    then have "encodeDigits al ds = code" by (simp add: eq)
    with n(4) unknown show False by simp
  qed
  then show ?thesis using expand_path [OF path, of s] a by simp
qed

theorem expand_unknown_code_witness:
  "2 \<le> length setup_alphabet \<and> 0 \<le> startID \<and>
   run (shortener setup_alphabet setup_protocol startID) [Shorten ''http://www.google.com''] =
     Some ([Shortened ''http://short.ly/bef''],
       \<lparr>alphabet = setup_alphabet, protocol = setup_protocol, ids = 4098,
        urlmap = [''1,4,5'' \<mapsto> ''http://www.google.com'']\<rparr>) \<and>
   getPath ''http://short.ly/beg'' = Some ''beg'' \<and>
   Shortened (setup_protocol @ ''beg'') \<notin> set [Shortened ''http://short.ly/bef''] \<and>
   expand \<lparr>alphabet = setup_alphabet, protocol = setup_protocol, ids = 4098,
        urlmap = [''1,4,5'' \<mapsto> ''http://www.google.com'']\<rparr> ''http://short.ly/beg'' =
     (Inr None,
      \<lparr>alphabet = setup_alphabet, protocol = setup_protocol, ids = 4098,
        urlmap = [''1,4,5'' \<mapsto> ''http://www.google.com'']\<rparr>)"
proof -
  let ?s1 = "\<lparr>alphabet = setup_alphabet, protocol = setup_protocol, ids = 4098,
        urlmap = [''1,4,5'' \<mapsto> ''http://www.google.com'']\<rparr>"
  have h1: "2 \<le> length setup_alphabet" by (simp add: eval_simps)
  have h2: "0 \<le> startID" by (simp add: eval_simps)
  have h3: "run (shortener setup_alphabet setup_protocol startID)
      [Shorten ''http://www.google.com''] = Some ([Shortened ''http://short.ly/bef''], ?s1)"
    by (simp add: eval_simps)
  have h4: "getPath ''http://short.ly/beg'' = Some ''beg''" by (simp add: eval_simps)
  have h5: "Shortened (setup_protocol @ ''beg'') \<notin> set [Shortened ''http://short.ly/bef'']"
    by (simp add: eval_simps)
  from expand_unknown_code [OF h1 h2 h3 h4 h5]
  have "expand ?s1 ''http://short.ly/beg'' = (Inr None, ?s1)" .
  with h1 h2 h3 h4 h5 show ?thesis by (intro conjI)
qed

text \<open>
  Claim C8, as stated, fails: the counter is a double. From \<open>2 ^ 53\<close> the call of
  \<^verbatim>\<open>shorten\<close> leaves the counter where it was, and the next call replaces the property
  that the first one wrote instead of adding one.
\<close>

theorem shorten_expand_frame_counterexample:
  "shorten (shortener setup_alphabet setup_protocol 9007199254740992) ''http://www.google.com'' =
     Some (''http://short.ly/PpQXn7COi'',
       \<lparr>alphabet = setup_alphabet, protocol = setup_protocol, ids = 9007199254740992,
        urlmap = [''41,15,42,49,13,59,28,40,8'' \<mapsto> ''http://www.google.com'']\<rparr>) \<and>
   shorten
       \<lparr>alphabet = setup_alphabet, protocol = setup_protocol, ids = 9007199254740992,
        urlmap = [''41,15,42,49,13,59,28,40,8'' \<mapsto> ''http://www.google.com'']\<rparr>
       ''https://www.cics.umass.edu'' =
     Some (''http://short.ly/PpQXn7COi'',
       \<lparr>alphabet = setup_alphabet, protocol = setup_protocol, ids = 9007199254740992,
        urlmap = [''41,15,42,49,13,59,28,40,8'' \<mapsto> ''https://www.cics.umass.edu'']\<rparr>)"
  by (simp add: eval_simps)

text \<open>
  Claim C8, amended. In every state that a session reaches with a counter below \<open>2 ^ 53\<close>,
  started with an alphabet of at least two characters and a starting identifier that is
  not negative, \<^verbatim>\<open>shorten\<close> returns, adds one to the counter, adds one property to
  \<^verbatim>\<open>urlmap\<close> under a name that was not there, and changes nothing else: not the
  alphabet, not the protocol, not another property. \<^verbatim>\<open>expand\<close> changes nothing at all.
\<close>

theorem shorten_expand_frame:
  assumes "2 \<le> length al" and "0 \<le> start"
    and "run (shortener al proto start) calls = Some (replies, s)"
    and "ids s < 2 ^ 53"
  shows "(\<exists>short s' k. shorten s urll = Some (short, s') \<and>
            alphabet s' = alphabet s \<and> protocol s' = protocol s \<and>
            ids s' = ids s + 1 \<and>
            k \<notin> dom (urlmap s) \<and> urlmap s' = (urlmap s)(k \<mapsto> urll)) \<and>
         snd (expand s urls) = s"
proof -
  from reachable_inv [OF assms] have "registry_inv s" by simp
  from registry_inv_shorten [OF this assms(4), of urll] obtain ds where
    fresh: "property_key ds \<notin> dom (urlmap s)"
    and sh: "shorten s urll = Some (protocol s @ encodeDigits (alphabet s) ds,
          s\<lparr>ids := ids s + 1, urlmap := (urlmap s)(property_key ds \<mapsto> urll)\<rparr>)"
    by blast
  let ?s' = "s\<lparr>ids := ids s + 1, urlmap := (urlmap s)(property_key ds \<mapsto> urll)\<rparr>"
  have "alphabet ?s' = alphabet s \<and> protocol ?s' = protocol s \<and> ids ?s' = ids s + 1 \<and>
        urlmap ?s' = (urlmap s)(property_key ds \<mapsto> urll)"
    by simp
  with sh fresh have "\<exists>short s' k. shorten s urll = Some (short, s') \<and>
            alphabet s' = alphabet s \<and> protocol s' = protocol s \<and>
            ids s' = ids s + 1 \<and>
            k \<notin> dom (urlmap s) \<and> urlmap s' = (urlmap s)(k \<mapsto> urll)"
    by blast
  then show ?thesis using expand_state [of s urls] by simp
qed

theorem shorten_expand_frame_witness:
  "2 \<le> length setup_alphabet \<and> 0 \<le> startID \<and>
   run (shortener setup_alphabet setup_protocol startID) [Shorten ''http://www.google.com''] =
     Some ([Shortened ''http://short.ly/bef''],
       \<lparr>alphabet = setup_alphabet, protocol = setup_protocol, ids = 4098,
        urlmap = [''1,4,5'' \<mapsto> ''http://www.google.com'']\<rparr>) \<and>
   (4098::int) < 2 ^ 53 \<and>
   shorten \<lparr>alphabet = setup_alphabet, protocol = setup_protocol, ids = 4098,
        urlmap = [''1,4,5'' \<mapsto> ''http://www.google.com'']\<rparr> ''https://www.cics.umass.edu'' =
     Some (''http://short.ly/beg'',
       \<lparr>alphabet = setup_alphabet, protocol = setup_protocol, ids = 4098 + 1,
        urlmap = [''1,4,5'' \<mapsto> ''http://www.google.com'',
                  ''1,4,6'' \<mapsto> ''https://www.cics.umass.edu'']\<rparr>) \<and>
   ''1,4,6'' \<notin> dom [''1,4,5'' \<mapsto> ''http://www.google.com''] \<and>
   snd (expand \<lparr>alphabet = setup_alphabet, protocol = setup_protocol, ids = 4098,
        urlmap = [''1,4,5'' \<mapsto> ''http://www.google.com'']\<rparr> ''http://short.ly/bef'') =
     \<lparr>alphabet = setup_alphabet, protocol = setup_protocol, ids = 4098,
        urlmap = [''1,4,5'' \<mapsto> ''http://www.google.com'']\<rparr>"
proof -
  let ?s1 = "\<lparr>alphabet = setup_alphabet, protocol = setup_protocol, ids = 4098,
        urlmap = [''1,4,5'' \<mapsto> ''http://www.google.com'']\<rparr>"
  have h1: "2 \<le> length setup_alphabet" by (simp add: eval_simps)
  have h2: "0 \<le> startID" by (simp add: eval_simps)
  have h3: "run (shortener setup_alphabet setup_protocol startID)
      [Shorten ''http://www.google.com''] = Some ([Shortened ''http://short.ly/bef''], ?s1)"
    by (simp add: eval_simps)
  have e: "shorten ?s1 ''https://www.cics.umass.edu'' =
     Some (''http://short.ly/beg'',
       \<lparr>alphabet = setup_alphabet, protocol = setup_protocol, ids = 4098 + 1,
        urlmap = [''1,4,5'' \<mapsto> ''http://www.google.com'',
                  ''1,4,6'' \<mapsto> ''https://www.cics.umass.edu'']\<rparr>)"
    by (simp add: eval_simps)
  have f: "''1,4,6'' \<notin> dom [''1,4,5'' \<mapsto> ''http://www.google.com'']" by simp
  have h4: "ids ?s1 < 2 ^ 53" by simp
  have h4': "(4098::int) < 2 ^ 53" by simp
  from shorten_expand_frame [OF h1 h2 h3 h4, of "''https://www.cics.umass.edu''" "''http://short.ly/bef''"]
  have "snd (expand ?s1 ''http://short.ly/bef'') = ?s1" by (rule conjunct2)
  with h1 h2 h3 h4' e f show ?thesis by (intro conjI)
qed

text \<open>
  Claim C9, as stated, fails: from the starting identifier \<open>2 ^ 53\<close> the counter does not
  advance. Two calls of \<^verbatim>\<open>shorten\<close> for the same long URL return the same short URL and
  leave one property, and a call for another long URL replaces the property of the first.
\<close>

theorem shorten_never_overwrites_counterexample:
  "run (shortener setup_alphabet setup_protocol 9007199254740992)
     [Shorten ''http://www.google.com'', Shorten ''http://www.google.com''] =
     Some ([Shortened ''http://short.ly/PpQXn7COi'', Shortened ''http://short.ly/PpQXn7COi''],
       \<lparr>alphabet = setup_alphabet, protocol = setup_protocol, ids = 9007199254740992,
        urlmap = [''41,15,42,49,13,59,28,40,8'' \<mapsto> ''http://www.google.com'']\<rparr>) \<and>
   run (shortener setup_alphabet setup_protocol 9007199254740992)
     [Shorten ''http://www.google.com'', Shorten ''https://www.cics.umass.edu''] =
     Some ([Shortened ''http://short.ly/PpQXn7COi'', Shortened ''http://short.ly/PpQXn7COi''],
       \<lparr>alphabet = setup_alphabet, protocol = setup_protocol, ids = 9007199254740992,
        urlmap = [''41,15,42,49,13,59,28,40,8'' \<mapsto> ''https://www.cics.umass.edu'']\<rparr>)"
  by (simp add: eval_simps)

text \<open>
  Claim C9, amended. In a session started with an alphabet of at least two characters, all
  different, and a starting identifier that is not negative, and as long as the counter is
  below \<open>2 ^ 53\<close>: every call of \<^verbatim>\<open>shorten\<close> writes a property whose name was not in
  \<^verbatim>\<open>urlmap\<close>; two calls for the same long URL, with any calls between them, return two
  different short URLs and write two different properties, both present afterwards; and
  every property stays as it was written, through each call and each run of calls.
\<close>

theorem shorten_never_overwrites:
  assumes al: "2 \<le> length al" "distinct al" and start: "0 \<le> start"
    and r0: "run (shortener al proto start) calls = Some (replies, s)"
    and sh1: "shorten s urll = Some (short1, s1)"
    and r1: "run s1 calls' = Some (replies', s2)"
    and sh2: "shorten s2 urll = Some (short2, s3)"
    and safe2: "ids s2 < 2 ^ 53"
  shows "short1 \<noteq> short2 \<and>
         (\<exists>k1 k2. k1 \<noteq> k2 \<and> k1 \<notin> dom (urlmap s) \<and> k2 \<notin> dom (urlmap s2) \<and>
            urlmap s1 = (urlmap s)(k1 \<mapsto> urll) \<and>
            urlmap s3 = (urlmap s2)(k2 \<mapsto> urll) \<and>
            urlmap s3 k1 = Some urll \<and> urlmap s3 k2 = Some urll) \<and>
         urlmap s \<subseteq>\<^sub>m urlmap s1 \<and> urlmap s1 \<subseteq>\<^sub>m urlmap s2 \<and> urlmap s2 \<subseteq>\<^sub>m urlmap s3"
proof -
  have safe: "ids s < 2 ^ 53"
  proof (rule ccontr)
    assume "\<not> ids s < 2 ^ 53"
    then have big: "2 ^ 53 \<le> ids s + 1" by simp
    from shorten_returns [OF sh1] have "ids s1 = round_double (ids s + 1)" by auto
    then have "2 ^ 53 \<le> ids s1" using round_double_large [OF big] by simp
    with r1 have "2 ^ 53 \<le> ids s2" by (rule run_threshold)
    then show False using safe2 by simp
  qed
  from reachable_inv [OF al(1) start r0 safe] have inv: "registry_inv s"
    and a: "alphabet s = al" and p: "protocol s = proto"
    by simp_all
  from registry_inv_shorten [OF inv safe, of urll] sh1 obtain ds where
    ds: "toDigits al (ids s) = Some ds"
    and fresh1: "property_key ds \<notin> dom (urlmap s)"
    and short1: "short1 = proto @ encodeDigits al ds"
    and s1: "s1 = s\<lparr>ids := ids s + 1, urlmap := (urlmap s)(property_key ds \<mapsto> urll)\<rparr>"
    and inv1: "registry_inv s1"
    by (auto simp: a p)
  have i0: "0 \<le> ids s" using inv by (simp add: registry_inv_def)
  have s1': "alphabet s1 = al" "0 \<le> ids s1" "protocol s1 = proto" "ids s1 = ids s + 1"
    "urlmap s1 = (urlmap s)(property_key ds \<mapsto> urll)"
    using s1 a p i0 by simp_all
  from registry_inv_run [OF inv1 r1 safe2] have inv2: "registry_inv s2"
    and le12: "urlmap s1 \<subseteq>\<^sub>m urlmap s2" and i2: "ids s1 \<le> ids s2"
    by simp_all
  from run_frame [OF al(1) s1'(1,2) r1] have a2: "alphabet s2 = al"
    and p2: "protocol s2 = proto"
    using s1'(3) by simp_all
  from registry_inv_shorten [OF inv2 safe2, of urll] sh2 obtain es where
    es: "toDigits al (ids s2) = Some es"
    and fresh2: "property_key es \<notin> dom (urlmap s2)"
    and short2: "short2 = proto @ encodeDigits al es"
    and s3: "s3 = s2\<lparr>ids := ids s2 + 1, urlmap := (urlmap s2)(property_key es \<mapsto> urll)\<rparr>"
    by (auto simp: a2 p2)
  have u3: "urlmap s3 = (urlmap s2)(property_key es \<mapsto> urll)" using s3 by simp
  have i2': "0 \<le> ids s2" and lt: "ids s < ids s2" using i2 s1'(2,4) by simp_all
  have keys: "property_key ds \<noteq> property_key es"
  proof
    assume "property_key ds = property_key es"
    moreover have "ids s \<le> 2 ^ 53" "ids s2 \<le> 2 ^ 53" using safe safe2 by simp_all
    ultimately have "ids s = ids s2" using al(1) i0 i2' ds es by (intro key_distinct)
    then show False using lt by simp
  qed
  have "ds \<noteq> es" using keys by auto
  moreover have "\<forall>d \<in> set ds. 0 \<le> d \<and> d < int (length al)"
    using toDigits_nonneg [OF al(1) i0] ds by auto
  moreover have "\<forall>d \<in> set es. 0 \<le> d \<and> d < int (length al)"
    using toDigits_nonneg [OF al(1) i2'] es by auto
  ultimately have "encodeDigits al ds \<noteq> encodeDigits al es"
    using encodeDigits_inj [OF al(2)] by blast
  then have shorts: "short1 \<noteq> short2" by (simp add: short1 short2)
  have le01: "urlmap s \<subseteq>\<^sub>m urlmap s1"
    unfolding s1'(5) using fresh1 by (auto simp: map_le_def)
  have le23: "urlmap s2 \<subseteq>\<^sub>m urlmap s3"
    unfolding u3 using fresh2 by (auto simp: map_le_def)
  have "urlmap s1 (property_key ds) = Some urll" by (simp add: s1'(5))
  then have "urlmap s2 (property_key ds) = Some urll"
    using le12 by (metis domI map_le_def)
  then have k1: "urlmap s3 (property_key ds) = Some urll" using keys by (simp add: u3)
  have k2: "urlmap s3 (property_key es) = Some urll" by (simp add: u3)
  have "\<exists>k1 k2. k1 \<noteq> k2 \<and> k1 \<notin> dom (urlmap s) \<and> k2 \<notin> dom (urlmap s2) \<and>
            urlmap s1 = (urlmap s)(k1 \<mapsto> urll) \<and>
            urlmap s3 = (urlmap s2)(k2 \<mapsto> urll) \<and>
            urlmap s3 k1 = Some urll \<and> urlmap s3 k2 = Some urll"
    using keys fresh1 fresh2 s1'(5) u3 k1 k2 by blast
  then show ?thesis using shorts le01 le12 le23 by simp
qed

theorem shorten_never_overwrites_witness:
  "2 \<le> length setup_alphabet \<and> distinct setup_alphabet \<and> 0 \<le> startID \<and>
   run (shortener setup_alphabet setup_protocol startID) [] =
     Some ([], shortener setup_alphabet setup_protocol startID) \<and>
   shorten (shortener setup_alphabet setup_protocol startID) ''http://www.google.com'' =
     Some (''http://short.ly/bef'',
       \<lparr>alphabet = setup_alphabet, protocol = setup_protocol, ids = 4098,
        urlmap = [''1,4,5'' \<mapsto> ''http://www.google.com'']\<rparr>) \<and>
   run \<lparr>alphabet = setup_alphabet, protocol = setup_protocol, ids = 4098,
        urlmap = [''1,4,5'' \<mapsto> ''http://www.google.com'']\<rparr>
     [Expand ''http://short.ly/bef''] =
     Some ([Expanded (Inr (Some ''http://www.google.com''))],
       \<lparr>alphabet = setup_alphabet, protocol = setup_protocol, ids = 4098,
        urlmap = [''1,4,5'' \<mapsto> ''http://www.google.com'']\<rparr>) \<and>
   shorten \<lparr>alphabet = setup_alphabet, protocol = setup_protocol, ids = 4098,
        urlmap = [''1,4,5'' \<mapsto> ''http://www.google.com'']\<rparr> ''http://www.google.com'' =
     Some (''http://short.ly/beg'',
       \<lparr>alphabet = setup_alphabet, protocol = setup_protocol, ids = 4099,
        urlmap = [''1,4,5'' \<mapsto> ''http://www.google.com'',
                  ''1,4,6'' \<mapsto> ''http://www.google.com'']\<rparr>) \<and>
   (4098::int) < 2 ^ 53 \<and>
   ''http://short.ly/bef'' \<noteq> ''http://short.ly/beg'' \<and>
   [''1,4,5'' \<mapsto> ''http://www.google.com'', ''1,4,6'' \<mapsto> ''http://www.google.com'']
     ''1,4,5'' = Some ''http://www.google.com'' \<and>
   [''1,4,5'' \<mapsto> ''http://www.google.com''] \<subseteq>\<^sub>m
     [''1,4,5'' \<mapsto> ''http://www.google.com'', ''1,4,6'' \<mapsto> ''http://www.google.com'']"
proof -
  let ?s0 = "shortener setup_alphabet setup_protocol startID"
  let ?s1 = "\<lparr>alphabet = setup_alphabet, protocol = setup_protocol, ids = 4098,
        urlmap = [''1,4,5'' \<mapsto> ''http://www.google.com'']\<rparr>"
  let ?s3 = "\<lparr>alphabet = setup_alphabet, protocol = setup_protocol, ids = 4099,
        urlmap = [''1,4,5'' \<mapsto> ''http://www.google.com'',
                  ''1,4,6'' \<mapsto> ''http://www.google.com'']\<rparr>"
  have h1: "2 \<le> length setup_alphabet" by (simp add: eval_simps)
  have h2: "distinct setup_alphabet" by (simp add: eval_simps)
  have h3: "0 \<le> startID" by (simp add: eval_simps)
  have h4: "run ?s0 [] = Some ([], ?s0)" by simp
  have h5: "shorten ?s0 ''http://www.google.com'' = Some (''http://short.ly/bef'', ?s1)"
    by (simp add: eval_simps)
  have h6: "run ?s1 [Expand ''http://short.ly/bef''] =
     Some ([Expanded (Inr (Some ''http://www.google.com''))], ?s1)"
    by (simp add: eval_simps)
  have h7: "shorten ?s1 ''http://www.google.com'' = Some (''http://short.ly/beg'', ?s3)"
    by (simp add: eval_simps)
  have h8: "ids ?s1 < 2 ^ 53" by simp
  have h8': "(4098::int) < 2 ^ 53" by simp
  note t = shorten_never_overwrites [OF h1 h2 h3 h4 h5 h6 h7 h8]
  have c1: "''http://short.ly/bef'' \<noteq> ''http://short.ly/beg''" using t by (rule conjunct1)
  have c2: "urlmap ?s1 \<subseteq>\<^sub>m urlmap ?s3" using t by blast
  have c3: "[''1,4,5'' \<mapsto> ''http://www.google.com'', ''1,4,6'' \<mapsto> ''http://www.google.com'']
     ''1,4,5'' = Some ''http://www.google.com''" by simp
  have c2': "[''1,4,5'' \<mapsto> ''http://www.google.com''] \<subseteq>\<^sub>m
     [''1,4,5'' \<mapsto> ''http://www.google.com'', ''1,4,6'' \<mapsto> ''http://www.google.com'']"
    using c2 by simp
  from h1 h2 h3 h4 h5 h6 h7 h8' c1 c3 c2' show ?thesis by (intro conjI)
qed

end
